theory Spec2Isabelle
  imports
    Complex_Main
    "HOL-Library.Char_ord"
    "HOL-Library.List_Lexorder"
    "HOL-Library.Multiset"
begin

section \<open>The dataset contract\<close>

text \<open>
  The trees package (\<^verbatim>\<open>trees/id3.go\<close>) and the ensemble package
  (\<^verbatim>\<open>ensemble/randomforest.go\<close>) work on \<^verbatim>\<open>base.Instances\<close>, whose
  implementation is not among the sources.  The dataset is therefore a small concrete
  model of the contract the specification describes; every operation of it is marked.

  Go strings are byte sequences compared bytewise; \<^typ>\<open>string\<close> with the
  lexicographic order of \<^theory_text>\<open>List_Lexorder\<close> over \<^theory_text>\<open>Char_ord\<close> is
  the same order.
\<close>

text \<open>Modelled from the spec: \<^verbatim>\<open>base.Attribute\<close> (missing from the sources).
  An attribute identifies one column and has a name; attributes are compared by identity,
  so two attributes with one name and different identities are different columns.\<close>

datatype Attribute = Attribute (attrId: nat) (GetName: string)

text \<open>Modelled from the spec: \<^verbatim>\<open>base.Instances\<close> (missing from the sources).
  An ordered sequence of rows, each a fixed-width vector over the attributes, one attribute
  being the class attribute.  \<open>attributes\<close> are the columns other than the class column,
  in column order; the class column comes last.  A row holds the canonical string of each
  value (what \<^verbatim>\<open>GetStringFromSysVal\<close> returns for the stored value): first the
  values of the non-class columns, then the class value.\<close>

record Instances =
  attributes :: "Attribute list"
  classAttr :: Attribute
  rows :: "(string list \<times> string) list"

text \<open>A panic of the Go program is a value: \<open>ContractViolation\<close> is the fail-fast
  signal of the dataset contract, \<open>NilDereference\<close> the run-time panic of a field
  access through a nil node pointer.\<close>

datatype error = ContractViolation | NilDereference

text \<open>Modelled from the spec: \<^verbatim>\<open>Instances.GetAttributeCount\<close> (missing from the
  sources): the number of attributes of the dataset, the class attribute being one of them.\<close>

definition GetAttributeCount :: "Instances \<Rightarrow> nat" where
  "GetAttributeCount inst = length (attributes inst) + 1"

text \<open>The first position of an attribute in a list of columns, \<open>None\<close> when no column
  is that attribute (the \<^verbatim>\<open>-1\<close> of the Go code).\<close>

fun GetAttrIndexIn :: "Attribute list \<Rightarrow> Attribute \<Rightarrow> nat option" where
  "GetAttrIndexIn [] a = None"
| "GetAttrIndexIn (b # bs) a =
     (if b = a then Some 0 else map_option Suc (GetAttrIndexIn bs a))"

text \<open>Modelled from the spec: \<^verbatim>\<open>Instances.GetAttrIndex\<close> (missing from the sources):
  resolves an attribute to a column index by identity, or reports "not found".  A nil
  attribute is no column.\<close>

definition GetAttrIndex :: "Instances \<Rightarrow> Attribute option \<Rightarrow> nat option" where
  "GetAttrIndex inst a =
     (case a of
        None \<Rightarrow> None
      | Some b \<Rightarrow> GetAttrIndexIn (attributes inst @ [classAttr inst]) b)"

text \<open>Modelled from the spec: \<^verbatim>\<open>Instances.Get\<close> followed by
  \<^verbatim>\<open>Attribute.GetStringFromSysVal\<close> (missing from the sources): the canonical string
  of a row's value in column \<open>j\<close>.\<close>

definition GetStr :: "string list \<times> string \<Rightarrow> nat \<Rightarrow> string" where
  "GetStr row j = (fst row @ [snd row]) ! j"

text \<open>Modelled from the spec: \<^verbatim>\<open>Instances.CountClassValues\<close> (missing from the
  sources): the class histogram, one entry per class value that occurs, with the number of
  rows carrying it.  A Go map has no order of its own; the order of this list means
  nothing, and every loop over a map takes the order of its visit from a \<open>RangeOrder\<close>.\<close>

definition CountClassValues :: "Instances \<Rightarrow> (string \<times> nat) list" where
  "CountClassValues inst =
     (let labels = map snd (rows inst)
      in map (\<lambda>k. (k, count_list labels k)) (remdups labels))"

definition dropColumn ::
  "Attribute list \<Rightarrow> Attribute \<Rightarrow> string list \<times> string \<Rightarrow> string list \<times> string" where
  "dropColumn cols a row =
     (map snd (filter (\<lambda>bv. fst bv \<noteq> a) (zip cols (fst row))), snd row)"

text \<open>Modelled from the spec: \<^verbatim>\<open>Instances.DecomposeOnAttributeValues\<close> (missing
  from the sources): partitions the rows into disjoint groups keyed by the string value of
  the given attribute; every row lands in exactly one group and a value with no row has no
  group.  The attribute is used up: the groups no longer have its column (the "strictly
  smaller attribute space" of the specification).  Splitting on an attribute that is not
  one of the non-class columns of the dataset is a contract violation and fails fast.\<close>

definition DecomposeOnAttributeValues ::
  "Instances \<Rightarrow> Attribute \<Rightarrow> error + (string \<times> Instances) list" where
  "DecomposeOnAttributeValues inst a =
     (case GetAttrIndexIn (attributes inst) a of
        None \<Rightarrow> Inl ContractViolation
      | Some j \<Rightarrow>
          Inr (map (\<lambda>v. (v, \<lparr> attributes = filter (\<lambda>b. b \<noteq> a) (attributes inst),
                              classAttr = classAttr inst,
                              rows = map (dropColumn (attributes inst) a)
                                         (filter (\<lambda>r. GetStr r j = v) (rows inst)) \<rparr>))
                   (remdups (map (\<lambda>r. GetStr r j) (rows inst)))))"

section \<open>Iteration over Go maps\<close>

text \<open>
  The order in which \<^verbatim>\<open>for k := range m\<close> visits the keys of a Go map is not
  specified and changes from run to run.  A \<open>RangeOrder\<close> gives the keys of a map in the
  order of one visit; a map is an association list looked up with \<^const>\<open>map_of\<close>.
  \<open>validOrder\<close> says that a visit meets every key exactly once.  The order is a
  parameter of every function with such a loop whose result depends on it; two runs of the
  program are two orders.
\<close>

type_synonym RangeOrder = "string list \<Rightarrow> string list"

definition rangeKeys :: "RangeOrder \<Rightarrow> (string \<times> 'v) list \<Rightarrow> string list" where
  "rangeKeys ro m = ro (map fst m)"

definition validOrder :: "RangeOrder \<Rightarrow> bool" where
  "validOrder ro = (\<forall>ks. mset (ro ks) = mset ks)"

section \<open>Tree nodes and induction (\<^verbatim>\<open>InferID3Tree\<close>)\<close>

datatype NodeType = LeafNode | RuleNode

text \<open>\<^verbatim>\<open>DecisionTreeNode\<close>: \<open>Children = None\<close> is the nil map, \<open>SplitAttr = None\<close>
  the nil attribute.\<close>

datatype DecisionTreeNode = DecisionTreeNode
  (Type: NodeType)
  (Children: "(string \<times> DecisionTreeNode) list option")
  (SplitAttr: "Attribute option")
  (ClassDist: "(string \<times> nat) list")
  (Class: string)
  (ClassAttr: Attribute)

text \<open>\<^verbatim>\<open>RuleGenerator.GenerateSplitAttribute\<close>: the attribute to split on, or nil.\<close>

type_synonym RuleGenerator = "Instances \<Rightarrow> Attribute option"

text \<open>\<^verbatim>\<open>classes[i]\<close>: reading a Go map of integers gives 0 for a key it does not
  have.\<close>

definition lookupCount :: "(string \<times> nat) list \<Rightarrow> string \<Rightarrow> nat" where
  "lookupCount classes i = (case map_of classes i of None \<Rightarrow> 0 | Some n \<Rightarrow> n)"

text \<open>The loop of lines 46 to 48: \<^verbatim>\<open>for i := range classes { maxClass = i }\<close>.\<close>

fun onlyClassLoop :: "string list \<Rightarrow> string \<Rightarrow> string" where
  "onlyClassLoop [] maxClass = maxClass"
| "onlyClassLoop (i # rest) maxClass = onlyClassLoop rest i"

text \<open>The loop of lines 63 to 68 over the keys in the order of the visit:
  \<^verbatim>\<open>if classes[i] > maxVal { maxClass = i; maxVal = classes[i] }\<close>.\<close>

fun maxClassLoop :: "(string \<times> nat) list \<Rightarrow> string list \<Rightarrow> nat \<Rightarrow> string \<Rightarrow> string" where
  "maxClassLoop classes [] maxVal maxClass = maxClass"
| "maxClassLoop classes (i # rest) maxVal maxClass =
     (if lookupCount classes i > maxVal
      then maxClassLoop classes rest (lookupCount classes i) i
      else maxClassLoop classes rest maxVal maxClass)"

text \<open>Building a map of children stops at the first child whose construction
  panicked.\<close>

fun collectChildren ::
  "(string \<times> (error + DecisionTreeNode)) list \<Rightarrow> error + (string \<times> DecisionTreeNode) list" where
  "collectChildren [] = Inr []"
| "collectChildren ((k, r) # rest) =
     (case r of
        Inl e \<Rightarrow> Inl e
      | Inr child \<Rightarrow>
          (case collectChildren rest of
             Inl e \<Rightarrow> Inl e
           | Inr children \<Rightarrow> Inr ((k, child) # children)))"

lemma GetAttrIndexIn_Some_mem: "GetAttrIndexIn cols a = Some j \<Longrightarrow> a \<in> set cols"
  by (induction cols arbitrary: j) (auto split: if_splits)

lemma decompose_fewer_attributes:
  assumes "DecomposeOnAttributeValues inst a = Inr groups" and "kv \<in> set groups"
  shows "length (attributes (snd kv)) < length (attributes inst)"
proof -
  from assms obtain j where j: "GetAttrIndexIn (attributes inst) a = Some j"
    by (auto simp: DecomposeOnAttributeValues_def split: option.splits)
  then have "a \<in> set (attributes inst)"
    by (rule GetAttrIndexIn_Some_mem)
  then have "length (filter (\<lambda>b. b \<noteq> a) (attributes inst)) < length (attributes inst)"
    by (simp add: length_filter_less)
  moreover from assms j have "attributes (snd kv) = filter (\<lambda>b. b \<noteq> a) (attributes inst)"
    by (auto simp: DecomposeOnAttributeValues_def)
  ultimately show ?thesis by simp
qed

text \<open>\<^verbatim>\<open>InferID3Tree(from, with)\<close>, lines 39 to 110.  \<open>ro\<close> is the order in which
  the two loops over \<^verbatim>\<open>classes\<close> meet its keys.  The loop of lines 104 to 107
  builds one child for each group of the decomposition; the map of children does not
  depend on the order in which the groups are met.  A panic of the decomposition or of a
  recursive call ends the call.  The recursion ends because every group of a
  decomposition has fewer columns than the dataset it comes from.\<close>

function InferID3Tree ::
  "RangeOrder \<Rightarrow> RuleGenerator \<Rightarrow> Instances \<Rightarrow> error + DecisionTreeNode" where
  "InferID3Tree ro gen inst =
     (let classes = CountClassValues inst in
      if length classes = 1 then
        Inr (DecisionTreeNode LeafNode None None classes
               (onlyClassLoop (rangeKeys ro classes) '''') (classAttr inst))
      else
        let maxClass = maxClassLoop classes (rangeKeys ro classes) 0 '''' in
        if GetAttributeCount inst = 2 then
          Inr (DecisionTreeNode LeafNode None None classes maxClass (classAttr inst))
        else
          (case gen inst of
             None \<Rightarrow>
               Inr (DecisionTreeNode RuleNode None None classes maxClass (classAttr inst))
           | Some splitOnAttribute \<Rightarrow>
               (case DecomposeOnAttributeValues inst splitOnAttribute of
                  Inl e \<Rightarrow> Inl e
                | Inr splitInstances \<Rightarrow>
                    (case collectChildren
                            (map (\<lambda>kv. (fst kv, InferID3Tree ro gen (snd kv)))
                               splitInstances) of
                       Inl e \<Rightarrow> Inl e
                     | Inr children \<Rightarrow>
                         Inr (DecisionTreeNode RuleNode (Some children)
                                (Some splitOnAttribute) classes maxClass
                                (classAttr inst))))))"
  by pat_completeness auto
termination
  by (relation "measure (\<lambda>(ro, gen, inst). length (attributes inst))")
     (auto simp: decompose_fewer_attributes)

declare InferID3Tree.simps [simp del]

section \<open>Prediction (\<^verbatim>\<open>DecisionTreeNode.Predict\<close>)\<close>

text \<open>The loop of lines 210 to 215 over the keys of \<^verbatim>\<open>cur.Children\<close>:
  \<^verbatim>\<open>bestChild = c; if c > classVar { break }\<close>.\<close>

fun bestChildLoop :: "string list \<Rightarrow> string \<Rightarrow> string \<Rightarrow> string" where
  "bestChildLoop [] classVar bestChild = bestChild"
| "bestChildLoop (c # rest) classVar bestChild =
     (if c > classVar then c else bestChildLoop rest classVar c)"

lemma size_map_of:
  "map_of cs k = Some c \<Longrightarrow> size c < Suc (size_list (size_prod (\<lambda>_. 0) size) cs)"
  by (induction cs) (auto split: if_splits)

lemma size_child:
  "Children cur = Some cs \<Longrightarrow> map_of cs k = Some c \<Longrightarrow> size c < size cur"
  using size_map_of [of cs k c] by (cases cur) simp

text \<open>The inner loop of \<^verbatim>\<open>Predict\<close>, lines 194 to 219, for one row: the result is
  the node \<^verbatim>\<open>cur\<close> at which the loop breaks, whose \<^verbatim>\<open>Class\<close> is written as the
  row's prediction.  Looking up a key that the map does not have gives a nil node, and
  the next turn of the loop panics on \<^verbatim>\<open>cur.Children\<close>.\<close>

function descend ::
  "RangeOrder \<Rightarrow> Instances \<Rightarrow> string list \<times> string \<Rightarrow> DecisionTreeNode
     \<Rightarrow> error + DecisionTreeNode" where
  "descend ro what row cur =
     (case Children cur of
        None \<Rightarrow> Inr cur
      | Some children \<Rightarrow>
          (case GetAttrIndex what (SplitAttr cur) of
             None \<Rightarrow> Inr cur
           | Some j \<Rightarrow>
               (let classVar = GetStr row j in
                case map_of children classVar of
                  Some next \<Rightarrow> descend ro what row next
                | None \<Rightarrow>
                    (let bestChild = bestChildLoop (rangeKeys ro children) classVar ''''
                     in case map_of children bestChild of
                          None \<Rightarrow> Inl NilDereference
                        | Some next \<Rightarrow> descend ro what row next))))"
  by pat_completeness auto
termination
  by (relation "measure (\<lambda>(ro, what, row, cur). size cur)") (auto simp: size_child)

declare descend.simps [simp del]

text \<open>The outer loop of \<^verbatim>\<open>Predict\<close>, lines 192 to 220: the labels of the rows in
  row order; a panic ends it.\<close>

fun predictRows ::
  "RangeOrder \<Rightarrow> DecisionTreeNode \<Rightarrow> Instances \<Rightarrow> (string list \<times> string) list
     \<Rightarrow> error + string list" where
  "predictRows ro d what [] = Inr []"
| "predictRows ro d what (row # rest) =
     (case descend ro what row d of
        Inl e \<Rightarrow> Inl e
      | Inr cur \<Rightarrow>
          (case predictRows ro d what rest of
             Inl e \<Rightarrow> Inl e
           | Inr labels \<Rightarrow> Inr (Class cur # labels)))"

text \<open>\<^verbatim>\<open>Predict\<close>, lines 188 to 222: a dataset whose only column is the class
  attribute of the input, with one row per input row.\<close>

definition Predict :: "RangeOrder \<Rightarrow> DecisionTreeNode \<Rightarrow> Instances \<Rightarrow> error + Instances" where
  "Predict ro d what =
     (case predictRows ro d what (rows what) of
        Inl e \<Rightarrow> Inl e
      | Inr labels \<Rightarrow>
          Inr \<lparr> attributes = [], classAttr = classAttr what,
                rows = map (\<lambda>l. ([], l)) labels \<rparr>)"

section \<open>Pruning (\<^verbatim>\<open>DecisionTreeNode.Prune\<close>)\<close>

text \<open>Modelled from the spec: the \<^verbatim>\<open>float64\<close> accuracy of the evaluation package
  (missing from the sources), the quotient correct/total.  The quotient of two row counts
  is kept exact: two accuracies over the same rows compare as the exact quotients do for
  every dataset of fewer than \<open>2^52\<close> rows.  \<open>NaN\<close> is the quotient 0/0 of an empty
  dataset; every comparison with it is false.\<close>

datatype Accuracy = NaN | Ratio rat

definition accLess :: "Accuracy \<Rightarrow> Accuracy \<Rightarrow> bool" where
  "accLess x y =
     (case x of
        NaN \<Rightarrow> False
      | Ratio p \<Rightarrow> (case y of NaN \<Rightarrow> False | Ratio q \<Rightarrow> p < q))"

text \<open>Modelled from the spec: \<^verbatim>\<open>Instances.GetClass\<close> (missing from the sources):
  the class value of every row, in row order.\<close>

definition GetClass :: "Instances \<Rightarrow> string list" where
  "GetClass inst = map snd (rows inst)"

text \<open>Modelled from the spec: \<^verbatim>\<open>evaluation.GetConfusionMatrix\<close> (missing from the
  sources): the confusion matrix of the (ground truth, prediction) pairs, one cell per
  pair that occurs, holding the number of rows with that pair.\<close>

type_synonym ConfusionMatrix = "((string \<times> string) \<times> nat) list"

definition GetConfusionMatrix :: "Instances \<Rightarrow> Instances \<Rightarrow> ConfusionMatrix" where
  "GetConfusionMatrix ref gen =
     (let pairs = zip (GetClass ref) (GetClass gen)
      in map (\<lambda>c. (c, count_list pairs c)) (remdups pairs))"

text \<open>Modelled from the spec: \<^verbatim>\<open>evaluation.GetAccuracy\<close> (missing from the sources):
  the rows on the diagonal of the matrix over all rows.\<close>

definition GetAccuracy :: "ConfusionMatrix \<Rightarrow> Accuracy" where
  "GetAccuracy cm =
     (let correct = sum_list (map snd (filter (\<lambda>cell. fst (fst cell) = snd (fst cell)) cm));
          total = sum_list (map snd cm)
      in if total = 0 then NaN else Ratio (of_nat correct / of_nat total))"

text \<open>\<^verbatim>\<open>computeAccuracy(predictions, from)\<close>, lines 149 to 152.\<close>

definition computeAccuracy :: "Instances \<Rightarrow> Instances \<Rightarrow> Accuracy" where
  "computeAccuracy predictions inst = GetAccuracy (GetConfusionMatrix inst predictions)"

text \<open>The assignment \<^verbatim>\<open>d.Children = ch\<close>.\<close>

definition setChildren ::
  "DecisionTreeNode \<Rightarrow> (string \<times> DecisionTreeNode) list option \<Rightarrow> DecisionTreeNode" where
  "setChildren d ch =
     DecisionTreeNode (Type d) ch (SplitAttr d) (ClassDist d) (Class d) (ClassAttr d)"

lemma size_child_mem:
  assumes "Children d = Some cs" and "kc \<in> set cs"
  shows "size (snd kc) < size d"
proof -
  have "size (snd kc) < Suc (size_list (size_prod (\<lambda>_. 0) size) cs)"
    using assms(2) by (induction cs) auto
  with assms(1) show ?thesis by (cases d) simp
qed

text \<open>\<^verbatim>\<open>Prune(using)\<close>, lines 155 to 185.  The node is mutated in place in Go; here
  the pruned node is returned.  A tree built by \<^const>\<open>InferID3Tree\<close> shares no node, so
  pruning one child leaves its siblings as they are, and the loop of lines 165 to 170
  gives the same children in whatever order it meets the keys.  \<^verbatim>\<open>sub[k] == nil\<close> is
  a key without a group.  \<open>ro\<close> is the order of the map iterations in the two calls
  of \<^verbatim>\<open>Predict\<close>.\<close>

function Prune :: "RangeOrder \<Rightarrow> DecisionTreeNode \<Rightarrow> Instances \<Rightarrow> error + DecisionTreeNode" where
  "Prune ro d usingInst =
     (case Children d of
        None \<Rightarrow> Inr d
      | Some children \<Rightarrow>
          (case SplitAttr d of
             None \<Rightarrow> Inr d
           | Some a \<Rightarrow>
               (case DecomposeOnAttributeValues usingInst a of
                  Inl e \<Rightarrow> Inl e
                | Inr sub \<Rightarrow>
                    (case collectChildren
                            (map (\<lambda>kc. (fst kc,
                                     case map_of sub (fst kc) of
                                       None \<Rightarrow> Inr (snd kc)
                                     | Some s \<Rightarrow> Prune ro (snd kc) s))
                               children) of
                       Inl e \<Rightarrow> Inl e
                     | Inr pruned \<Rightarrow>
                         (let d1 = setChildren d (Some pruned) in
                          case Predict ro d1 usingInst of
                            Inl e \<Rightarrow> Inl e
                          | Inr basePredictions \<Rightarrow>
                              (let baselineAccuracy =
                                     computeAccuracy basePredictions usingInst;
                                   tmpChildren = Children d1;
                                   d2 = setChildren d1 None
                               in case Predict ro d2 usingInst of
                                    Inl e \<Rightarrow> Inl e
                                  | Inr newPredictions \<Rightarrow>
                                      (let newAccuracy =
                                             computeAccuracy newPredictions usingInst
                                       in if accLess newAccuracy baselineAccuracy
                                          then Inr (setChildren d2 tmpChildren)
                                          else Inr d2)))))))"
  by pat_completeness auto
termination
  by (relation "measure (\<lambda>(ro, d, usingInst). size d)") (auto simp: size_child_mem)

declare Prune.simps [simp del]

section \<open>The tree orchestrator (\<^verbatim>\<open>ID3DecisionTree\<close>)\<close>

text \<open>\<^verbatim>\<open>ID3DecisionTree\<close>, lines 231 to 235.  The ratio is a \<^verbatim>\<open>float64\<close> that
  is only stored and compared with a constant; it is kept as the rational number that the
  \<^verbatim>\<open>float64\<close> is (a ratio that is not a number is left out).\<close>

record ID3DecisionTree =
  Root :: "DecisionTreeNode option"
  PruneSplit :: rat

definition NewID3DecisionTree :: "rat \<Rightarrow> ID3DecisionTree" where
  "NewID3DecisionTree prune = \<lparr> Root = None, PruneSplit = prune \<rparr>"

text \<open>The constant \<^verbatim>\<open>0.001\<close> of line 250 as a \<^verbatim>\<open>float64\<close>: the nearest
  \<^verbatim>\<open>float64\<close> to 1/1000, which is \<open>1152921504606847 / 2^60\<close>, a little more than
  1/1000.\<close>

definition pruneThreshold :: rat where
  "pruneThreshold = 1152921504606847 / 1152921504606846976"

text \<open>\<^verbatim>\<open>base.InstancesTrainTestSplit\<close> is missing from the sources and is a parameter
  of \<open>Fit\<close>: from a dataset and a ratio, the training and the validation part.\<close>

type_synonym TrainTestSplit = "Instances \<Rightarrow> rat \<Rightarrow> Instances \<times> Instances"

text \<open>\<^verbatim>\<open>Fit(on)\<close>, lines 248 to 257.  The rule generator
  (\<^verbatim>\<open>InformationGainRuleGenerator\<close>, missing from the sources) is a parameter.\<close>

definition Fit ::
  "RangeOrder \<Rightarrow> RuleGenerator \<Rightarrow> TrainTestSplit \<Rightarrow> ID3DecisionTree \<Rightarrow> Instances
     \<Rightarrow> error + ID3DecisionTree" where
  "Fit ro rule InstancesTrainTestSplit t on =
     (if PruneSplit t > pruneThreshold then
        (case InstancesTrainTestSplit on (PruneSplit t) of
           (trainData, testData) \<Rightarrow>
             (case InferID3Tree ro rule trainData of
                Inl e \<Rightarrow> Inl e
              | Inr rootNode \<Rightarrow>
                  (case Prune ro rootNode testData of
                     Inl e \<Rightarrow> Inl e
                   | Inr prunedRoot \<Rightarrow> Inr (t\<lparr> Root := Some prunedRoot \<rparr>))))
      else
        (case InferID3Tree ro rule on of
           Inl e \<Rightarrow> Inl e
         | Inr rootNode \<Rightarrow> Inr (t\<lparr> Root := Some rootNode \<rparr>)))"

section \<open>The ensemble (\<^verbatim>\<open>RandomForest\<close>)\<close>

text \<open>Modelled from the spec: \<^verbatim>\<open>meta.BaggedModel\<close> (missing from the sources): the
  bagging aggregator holds the registered member models and the number of features each
  member is trained on.\<close>

record BaggedModel =
  RandomFeatures :: int
  Models :: "ID3DecisionTree list"

text \<open>Modelled from the spec: \<^verbatim>\<open>BaggedModel.AddModel\<close> (missing from the sources):
  registers one more member.\<close>

definition AddModel :: "BaggedModel \<Rightarrow> ID3DecisionTree \<Rightarrow> BaggedModel" where
  "AddModel m tree = m\<lparr> Models := Models m @ [tree] \<rparr>"

record RandomForest =
  ForestSize :: int
  Features :: int
  Model :: "BaggedModel option"

definition NewRandomForest :: "int \<Rightarrow> int \<Rightarrow> RandomForest" where
  "NewRandomForest forestSize features =
     \<lparr> ForestSize = forestSize, Features = features, Model = None \<rparr>"

text \<open>The loop of lines 36 to 39 of \<^verbatim>\<open>randomforest.go\<close>.  The counter stays
  below \<^verbatim>\<open>ForestSize\<close>, so \<^verbatim>\<open>i++\<close> never wraps around and \<^typ>\<open>int\<close> is
  the machine integer.\<close>

function addTreesLoop :: "int \<Rightarrow> int \<Rightarrow> BaggedModel \<Rightarrow> BaggedModel" where
  "addTreesLoop i forestSize m =
     (if i < forestSize
      then addTreesLoop (i + 1) forestSize (AddModel m (NewID3DecisionTree 0))
      else m)"
  by pat_completeness auto
termination
  by (relation "measure (\<lambda>(i, forestSize, m). nat (forestSize - i))") auto

declare addTreesLoop.simps [simp del]

text \<open>\<^verbatim>\<open>BaggedModel.Fit\<close> and \<^verbatim>\<open>BaggedModel.Predict\<close> are missing from the
  sources and are parameters: training returns the trained aggregator, prediction takes
  the pointer held by the forest (nil before \<open>Fit\<close>).\<close>

type_synonym BaggedFit = "BaggedModel \<Rightarrow> Instances \<Rightarrow> error + BaggedModel"

type_synonym BaggedPredict = "BaggedModel option \<Rightarrow> Instances \<Rightarrow> error + Instances"

text \<open>\<^verbatim>\<open>RandomForest.Fit(on)\<close>, lines 33 to 41.\<close>

definition RandomForest_Fit ::
  "BaggedFit \<Rightarrow> RandomForest \<Rightarrow> Instances \<Rightarrow> error + RandomForest" where
  "RandomForest_Fit baggedFit f on =
     (let m0 = \<lparr> RandomFeatures = 0, Models = [] \<rparr>;
          m1 = m0\<lparr> RandomFeatures := Features f \<rparr>;
          m2 = addTreesLoop 0 (ForestSize f) m1
      in case baggedFit m2 on of
           Inl e \<Rightarrow> Inl e
         | Inr fitted \<Rightarrow> Inr (f\<lparr> Model := Some fitted \<rparr>))"

text \<open>\<^verbatim>\<open>RandomForest.Predict(with)\<close>, lines 44 to 46.\<close>

definition RandomForest_Predict ::
  "BaggedPredict \<Rightarrow> RandomForest \<Rightarrow> Instances \<Rightarrow> error + Instances" where
  "RandomForest_Predict baggedPredict f w = baggedPredict (Model f) w"

section \<open>Predicates of the properties\<close>

text \<open>Every node of the tree whose \<^verbatim>\<open>Children\<close> map is not nil has at least one
  child.\<close>

function nonemptyChildren :: "DecisionTreeNode \<Rightarrow> bool" where
  "nonemptyChildren d =
     (case Children d of
        None \<Rightarrow> True
      | Some children \<Rightarrow>
          children \<noteq> [] \<and> (\<forall>kc \<in> set children. nonemptyChildren (snd kc)))"
  by pat_completeness auto
termination
  by (relation "measure size") (auto simp: size_child_mem)

declare nonemptyChildren.simps [simp del]

text \<open>\<open>sameFrame d d'\<close>: the node \<open>d'\<close> is the node \<open>d\<close> but for its
  \<^verbatim>\<open>Children\<close> field, which is either nil or has the keys of \<open>d\<close> with children that
  are related in the same way.\<close>

function sameFrame :: "DecisionTreeNode \<Rightarrow> DecisionTreeNode \<Rightarrow> bool" where
  "sameFrame d d' =
     (Type d' = Type d \<and> SplitAttr d' = SplitAttr d \<and> ClassDist d' = ClassDist d \<and>
      Class d' = Class d \<and> ClassAttr d' = ClassAttr d \<and>
      (case Children d' of
         None \<Rightarrow> True
       | Some children' \<Rightarrow>
           (case Children d of
              None \<Rightarrow> False
            | Some children \<Rightarrow>
                list_all2 (\<lambda>kc kc'. fst kc' = fst kc \<and> sameFrame (snd kc) (snd kc'))
                  children children')))"
  by pat_completeness auto
termination
  by (relation "measure (\<lambda>(d, d'). size d)") (auto simp: size_child_mem)

declare sameFrame.simps [simp del]

text \<open>The loop of lines 165 to 170 of \<^verbatim>\<open>Prune\<close> on its own: a child whose key has a
  group of validation rows is pruned with that group, any other child is left as it is.\<close>

definition pruneChild ::
  "RangeOrder \<Rightarrow> (string \<times> Instances) list \<Rightarrow> string \<times> DecisionTreeNode
     \<Rightarrow> error + DecisionTreeNode" where
  "pruneChild ro sub kc =
     (case map_of sub (fst kc) of None \<Rightarrow> Inr (snd kc) | Some s \<Rightarrow> Prune ro (snd kc) s)"

definition pruneChildren ::
  "RangeOrder \<Rightarrow> (string \<times> Instances) list \<Rightarrow> (string \<times> DecisionTreeNode) list
     \<Rightarrow> error + (string \<times> DecisionTreeNode) list" where
  "pruneChildren ro sub children =
     collectChildren (map (\<lambda>kc. (fst kc, pruneChild ro sub kc)) children)"

text \<open>The number of rows whose prediction is the row's class value: the diagonal of the
  confusion matrix.\<close>

definition correctCount :: "Instances \<Rightarrow> Instances \<Rightarrow> nat" where
  "correctCount predictions inst =
     length (filter (\<lambda>tp. fst tp = snd tp) (zip (GetClass inst) (GetClass predictions)))"

text \<open>Two labels of a histogram that both have the highest count.\<close>

definition tiedHighest :: "(string \<times> nat) list \<Rightarrow> string \<Rightarrow> string \<Rightarrow> bool" where
  "tiedHighest classes a b =
     (a \<in> fst ` set classes \<and> b \<in> fst ` set classes \<and>
      lookupCount classes a = lookupCount classes b \<and>
      (\<forall>kc\<in>set classes. snd kc \<le> lookupCount classes a))"

text \<open>\<open>sameUpToTies d1 d2\<close>: the two trees have the same shape, node types, split
  attributes, child keys, histograms and class attributes, and the majority labels of two
  corresponding nodes are equal or are two labels with the highest count of the node's
  histogram.\<close>

function sameUpToTies :: "DecisionTreeNode \<Rightarrow> DecisionTreeNode \<Rightarrow> bool" where
  "sameUpToTies d1 d2 =
     (Type d1 = Type d2 \<and> SplitAttr d1 = SplitAttr d2 \<and> ClassDist d1 = ClassDist d2 \<and>
      ClassAttr d1 = ClassAttr d2 \<and>
      (Class d1 = Class d2 \<or> tiedHighest (ClassDist d1) (Class d1) (Class d2)) \<and>
      (case Children d1 of
         None \<Rightarrow> Children d2 = None
       | Some children1 \<Rightarrow>
           (case Children d2 of
              None \<Rightarrow> False
            | Some children2 \<Rightarrow>
                list_all2 (\<lambda>kc1 kc2. fst kc1 = fst kc2 \<and> sameUpToTies (snd kc1) (snd kc2))
                  children1 children2)))"
  by pat_completeness auto
termination
  by (relation "measure (\<lambda>(d1, d2). size d1)") (auto simp: size_child_mem)

declare sameUpToTies.simps [simp del]

text \<open>The majority label that \<^const>\<open>InferID3Tree\<close> gives the node it builds for a
  partition: the results of the loops of lines 46 to 48 and 63 to 68.\<close>

definition nodeClass :: "RangeOrder \<Rightarrow> Instances \<Rightarrow> string" where
  "nodeClass ro inst =
     (let classes = CountClassValues inst
      in if length classes = 1 then onlyClassLoop (rangeKeys ro classes) ''''
         else maxClassLoop classes (rangeKeys ro classes) 0 '''')"

text \<open>Every row of the dataset has one value for each column.\<close>

definition wfInstances :: "Instances \<Rightarrow> bool" where
  "wfInstances inst = (\<forall>r\<in>set (rows inst). length (fst r) = length (attributes inst))"

text \<open>\<open>usesAttr a d\<close>: some node of the tree \<open>d\<close> that has children splits on the
  attribute \<open>a\<close>, so that a prediction may look at the column \<open>a\<close>.\<close>

function usesAttr :: "Attribute \<Rightarrow> DecisionTreeNode \<Rightarrow> bool" where
  "usesAttr a d =
     (case Children d of
        None \<Rightarrow> False
      | Some children \<Rightarrow>
          SplitAttr d = Some a \<or> (\<exists>kc\<in>set children. usesAttr a (snd kc)))"
  by pat_completeness auto
termination
  by (relation "measure (\<lambda>(a, d). size d)") (auto simp: size_child_mem)

declare usesAttr.simps [simp del]

text \<open>\<open>routed d inst\<close>: the rows of \<open>inst\<close> are routed through the tree \<open>d\<close>
  as training rows are.  At every node with children and a split attribute that the rows
  reach, the split attribute is a non-class column, the value of every row has a child
  (no row has a value unseen in training), the subtrees below do not split on that
  attribute again, and the same holds for every child with the group of rows that the
  decomposition routes to it.\<close>

function routed :: "DecisionTreeNode \<Rightarrow> Instances \<Rightarrow> bool" where
  "routed d inst =
     (case Children d of
        None \<Rightarrow> True
      | Some children \<Rightarrow>
          (case SplitAttr d of
             None \<Rightarrow> True
           | Some a \<Rightarrow>
               (case DecomposeOnAttributeValues inst a of
                  Inl e \<Rightarrow> False
                | Inr sub \<Rightarrow>
                    (\<forall>ks\<in>set sub. fst ks \<in> fst ` set children) \<and>
                    (\<forall>kc\<in>set children.
                       \<not> usesAttr a (snd kc) \<and>
                       (case map_of sub (fst kc) of
                          None \<Rightarrow> True
                        | Some s \<Rightarrow> routed (snd kc) s)))))"
  by pat_completeness auto
termination
  by (relation "measure (\<lambda>(d, inst). size d)") (auto simp: size_child_mem)

declare routed.simps [simp del]

text \<open>The number of rows of \<open>rs\<close> whose traversal in the dataset \<open>what\<close> ends
  at a node whose label is the row's class value.\<close>

definition hits :: "RangeOrder \<Rightarrow> DecisionTreeNode \<Rightarrow> Instances \<Rightarrow> (string list \<times> string) list \<Rightarrow> nat" where
  "hits ro d what rs =
     length (filter (\<lambda>r. map_sum id Class (descend ro what r d) = Inr (snd r)) rs)"

text \<open>The string value of a row for an attribute, if the attribute is a column.\<close>

definition valueOf :: "Instances \<Rightarrow> string list \<times> string \<Rightarrow> Attribute \<Rightarrow> string option" where
  "valueOf what r b = map_option (GetStr r) (GetAttrIndex what (Some b))"

text \<open>The group of the decomposition on the attribute \<open>a\<close>, found in column
  \<open>j\<close>, for the value \<open>v\<close>.\<close>

definition groupOf :: "Instances \<Rightarrow> Attribute \<Rightarrow> nat \<Rightarrow> string \<Rightarrow> Instances" where
  "groupOf inst a j v =
     \<lparr> attributes = filter (\<lambda>b. b \<noteq> a) (attributes inst),
       classAttr = classAttr inst,
       rows = map (dropColumn (attributes inst) a)
                (filter (\<lambda>r. GetStr r j = v) (rows inst)) \<rparr>"

section \<open>Example data\<close>

text \<open>Small datasets and trees on which the properties below are evaluated.\<close>

definition attrA :: Attribute where "attrA = Attribute 0 ''A''"

definition attrB :: Attribute where "attrB = Attribute 1 ''B''"

definition attrD :: Attribute where "attrD = Attribute 2 ''D''"

definition attrC :: Attribute where "attrC = Attribute 3 ''C''"

text \<open>A rule generator that always splits on the first column that is left.\<close>

definition firstColumn :: RuleGenerator where
  "firstColumn inst = (case attributes inst of [] \<Rightarrow> None | a # _ \<Rightarrow> Some a)"

text \<open>Scenario A of the specification: one column \<open>A\<close> and the class.\<close>

definition scenarioA :: Instances where
  "scenarioA =
     \<lparr> attributes = [attrA], classAttr = attrC,
       rows = [([''x''], ''0''), ([''x''], ''0''), ([''y''], ''1''), ([''y''], ''1'')] \<rparr>"

definition classOnly :: Instances where
  "classOnly = \<lparr> attributes = [], classAttr = attrC, rows = [([], ''0''), ([], ''1'')] \<rparr>"

definition leafOne :: DecisionTreeNode where
  "leafOne = DecisionTreeNode LeafNode None None [(''1'', 1)] ''1'' attrC"

text \<open>A training set with three columns and a validation set with a value \<open>z\<close> of
  \<open>A\<close> that the training set does not have; the tree that induction builds from the
  training set when it splits on the first column.\<close>

definition trainThree :: Instances where
  "trainThree =
     \<lparr> attributes = [attrA, attrB, attrD], classAttr = attrC,
       rows = [([''x'', ''b1'', ''d''], ''0''), ([''x'', ''b2'', ''d''], ''1'')] \<rparr>"

definition validThree :: Instances where
  "validThree =
     \<lparr> attributes = [attrA, attrB, attrD], classAttr = attrC,
       rows = [([''x'', ''b1'', ''d''], ''0''), ([''z'', ''b2'', ''d''], ''1'')] \<rparr>"

definition allThree :: Instances where
  "allThree =
     \<lparr> attributes = [attrA, attrB, attrD], classAttr = attrC,
       rows = rows trainThree @ rows validThree \<rparr>"

definition leafZero :: DecisionTreeNode where
  "leafZero = DecisionTreeNode LeafNode None None [(''0'', 1)] ''0'' attrC"

definition ruleOnB :: DecisionTreeNode where
  "ruleOnB = DecisionTreeNode RuleNode (Some [(''b1'', leafZero), (''b2'', leafOne)])
               (Some attrB) [(''0'', 1), (''1'', 1)] ''0'' attrC"

definition treeThree :: DecisionTreeNode where
  "treeThree = DecisionTreeNode RuleNode (Some [(''x'', ruleOnB)]) (Some attrA)
                 [(''0'', 1), (''1'', 1)] ''0'' attrC"

text \<open>A split that takes the first rows for training and the other rows for
  validation.\<close>

definition splitFirst :: TrainTestSplit where
  "splitFirst inst p =
     (let n = length (rows inst) - nat \<lfloor>p * of_nat (length (rows inst))\<rfloor>
      in (inst\<lparr> rows := take n (rows inst) \<rparr>, inst\<lparr> rows := drop n (rows inst) \<rparr>))"

text \<open>An input dataset that does not have the column \<open>A\<close>.\<close>

definition inputWithoutA :: Instances where
  "inputWithoutA =
     \<lparr> attributes = [attrB, attrD], classAttr = attrC, rows = [([''b1'', ''d''], ''0'')] \<rparr>"

text \<open>The leaf that induction builds from Scenario A when the loop over the histogram
  meets the label \<open>1\<close> first.\<close>

definition tieLeafOne :: DecisionTreeNode where
  "tieLeafOne = DecisionTreeNode LeafNode None None [(''0'', 2), (''1'', 2)] ''1'' attrC"

text \<open>A validation set all of whose values occur in the training set.\<close>

definition validSeen :: Instances where
  "validSeen =
     \<lparr> attributes = [attrA, attrB, attrD], classAttr = attrC,
       rows = [([''x'', ''b1'', ''d''], ''0''), ([''x'', ''b2'', ''d''], ''0'')] \<rparr>"

section \<open>Properties\<close>

subsection \<open>Map iteration\<close>

lemma validOrder_id: "validOrder id"
  by (simp add: validOrder_def)

lemma validOrder_set: "validOrder ro \<Longrightarrow> set (ro ks) = set ks"
  unfolding validOrder_def by (metis set_mset_mset)

lemma validOrder_nonempty: "validOrder ro \<Longrightarrow> ks \<noteq> [] \<Longrightarrow> ro ks \<noteq> []"
  unfolding validOrder_def by (metis mset_zero_iff)

subsection \<open>The induced and the pruned example tree\<close>

lemma InferID3Tree_trainThree: "InferID3Tree id firstColumn trainThree = Inr treeThree"
  by code_simp

lemma Prune_treeThree: "Prune id treeThree validThree = Inr (setChildren treeThree None)"
  by code_simp

lemma splitFirst_allThree: "splitFirst allThree (1 / 2) = (trainThree, validThree)"
  by (simp add: splitFirst_def allThree_def trainThree_def validThree_def)

subsection \<open>The early leaf of induction\<close>

text \<open>
  C4.  Induction should return a leaf with the majority label exactly when no attribute
  other than the class attribute is left.  The test of line 72 is
  \<^verbatim>\<open>GetAttributeCount() == 2\<close>, which holds when one attribute other than the class
  attribute is left.  On Scenario A (column \<open>A\<close> and the class, two classes) induction
  therefore returns a leaf, whatever the rule generator and the order of iteration, and
  never splits on \<open>A\<close>; on a dataset with the class column only and two classes it goes
  past the test to the rule generator and returns a node of type \<open>RuleNode\<close>.
\<close>

theorem InferID3Tree_leaf_with_one_attribute_left:
  "attributes scenarioA = [attrA] \<and> GetAttributeCount scenarioA = 2 \<and>
   InferID3Tree ro gen scenarioA =
     Inr (DecisionTreeNode LeafNode None None [(''0'', 2), (''1'', 2)]
            (maxClassLoop [(''0'', 2), (''1'', 2)] (ro [''0'', ''1'']) 0 '''') attrC) \<and>
   attributes classOnly = [] \<and>
   InferID3Tree ro (\<lambda>inst. None) classOnly =
     Inr (DecisionTreeNode RuleNode None None [(''0'', 1), (''1'', 1)]
            (maxClassLoop [(''0'', 1), (''1'', 1)] (ro [''0'', ''1'']) 0 '''') attrC)"
  by (simp add: InferID3Tree.simps scenarioA_def classOnly_def CountClassValues_def
      GetAttributeCount_def rangeKeys_def Let_def numeral_2_eq_2)

subsection \<open>Prediction on a value without a child\<close>

text \<open>
  C1, as stated: at a Rule node whose value for the split attribute has no child, the
  traversal emits the node's own majority label and descends into no child.  It fails on
  the tree that induction builds from the training set \<open>trainThree\<close>: its root splits
  on \<open>A\<close>, has the single child \<open>x\<close> and the majority label \<open>0\<close>.  For the
  validation row with \<open>A = z\<close> the loop goes into the child \<open>x\<close>, which splits on
  \<open>B\<close>, and ends at the leaf for \<open>b2\<close>: the prediction is the label \<open>1\<close> of that
  leaf, not the label \<open>0\<close> of the root.
\<close>

theorem Predict_unseen_value_counterexample:
  "InferID3Tree id firstColumn trainThree = Inr treeThree \<and>
   Children treeThree = Some [(''x'', ruleOnB)] \<and>
   GetAttrIndex validThree (SplitAttr treeThree) = Some 0 \<and>
   GetStr ([''z'', ''b2'', ''d''], ''1'') 0 = ''z'' \<and>
   map_of [(''x'', ruleOnB)] ''z'' = None \<and>
   descend id validThree ([''z'', ''b2'', ''d''], ''1'') treeThree = Inr leafOne \<and>
   Class leafOne = ''1'' \<and> Class treeThree = ''0''"
proof -
  have "descend id validThree ([''z'', ''b2'', ''d''], ''1'') treeThree = Inr leafOne"
    by code_simp
  moreover have "GetAttrIndex validThree (SplitAttr treeThree) = Some 0"
    by (simp add: GetAttrIndex_def treeThree_def validThree_def)
  ultimately show ?thesis
    using InferID3Tree_trainThree
    by (simp add: treeThree_def leafOne_def GetStr_def)
qed

lemma bestChildLoop_split:
  "ks \<noteq> [] \<Longrightarrow>
   \<exists>pre post. ks = pre @ bestChildLoop ks v b # post \<and> (\<forall>c\<in>set pre. \<not> v < c) \<and>
     (v < bestChildLoop ks v b \<or> post = [])"
proof (induction ks arbitrary: b)
  case Nil
  then show ?case by simp
next
  case (Cons c ks)
  show ?case
  proof (cases "v < c")
    case True
    then have "c # ks = [] @ bestChildLoop (c # ks) v b # ks" by simp
    with True show ?thesis by (metis bestChildLoop.simps(2) empty_iff list.set(1))
  next
    case False
    show ?thesis
    proof (cases ks)
      case Nil
      with False show ?thesis by simp
    next
      case (Cons c' ks')
      then have "ks \<noteq> []" by simp
      from Cons.IH [OF this, of c] obtain pre post where
        pp: "ks = pre @ bestChildLoop ks v c # post" "\<forall>x\<in>set pre. \<not> v < x"
          "v < bestChildLoop ks v c \<or> post = []" by blast
      from False have eq: "bestChildLoop (c # ks) v b = bestChildLoop ks v c" by simp
      have "c # ks = (c # pre) @ bestChildLoop (c # ks) v b # post"
        using pp(1) eq by simp
      moreover have "\<forall>x\<in>set (c # pre). \<not> v < x" using pp(2) False by simp
      ultimately show ?thesis using pp(3) eq by metis
    qed
  qed
qed

lemma bestChildLoop_is_key:
  assumes "validOrder ro" and "children \<noteq> []"
  shows "\<exists>next. map_of children (bestChildLoop (rangeKeys ro children) v '''') = Some next"
proof -
  let ?ks = "rangeKeys ro children"
  from assms have "?ks \<noteq> []"
    by (simp add: rangeKeys_def validOrder_nonempty)
  from bestChildLoop_split [OF this, of v "''''"]
  have "bestChildLoop ?ks v '''' \<in> set ?ks" by (metis in_set_conv_decomp)
  with assms(1) have "bestChildLoop ?ks v '''' \<in> fst ` set children"
    by (simp add: rangeKeys_def validOrder_set)
  then show ?thesis by (metis map_of_eq_None_iff not_Some_eq)
qed

lemma descend_fallback_step:
  assumes "Children cur = Some children"
    and "GetAttrIndex what (SplitAttr cur) = Some j"
    and "map_of children (GetStr row j) = None"
    and "map_of children (bestChildLoop (rangeKeys ro children) (GetStr row j) '''') = Some next"
  shows "descend ro what row cur = descend ro what row next"
  using assms by (subst descend.simps) simp

lemma descend_match_step:
  assumes "Children cur = Some children"
    and "GetAttrIndex what (SplitAttr cur) = Some j"
    and "map_of children (GetStr row j) = Some next"
  shows "descend ro what row cur = descend ro what row next"
  using assms by (subst descend.simps) simp

lemma descend_stop:
  assumes "Children cur = None \<or> GetAttrIndex what (SplitAttr cur) = None"
  shows "descend ro what row cur = Inr cur"
  using assms by (subst descend.simps) (auto split: option.splits)

text \<open>
  C1, amended: at a Rule node with at least one child whose value for the split attribute
  has no child, the traversal does not stop: it goes into one of the node's children and
  continues from there.  The child is the first key greater than the value in the order
  in which the map iteration visits the keys, or the last key visited when no key is
  greater.
\<close>

theorem descend_unseen_value:
  assumes "validOrder ro"
    and "Children cur = Some children" and "children \<noteq> []"
    and "GetAttrIndex what (SplitAttr cur) = Some j"
    and "map_of children (GetStr row j) = None"
  shows "\<exists>k next pre post.
           k = bestChildLoop (rangeKeys ro children) (GetStr row j) '''' \<and>
           rangeKeys ro children = pre @ k # post \<and>
           (\<forall>c\<in>set pre. \<not> GetStr row j < c) \<and> (GetStr row j < k \<or> post = []) \<and>
           map_of children k = Some next \<and>
           descend ro what row cur = descend ro what row next"
proof -
  let ?v = "GetStr row j"
  let ?ks = "rangeKeys ro children"
  let ?k = "bestChildLoop ?ks ?v ''''"
  from assms(1,3) have "?ks \<noteq> []"
    by (simp add: rangeKeys_def validOrder_nonempty)
  from bestChildLoop_split [OF this, of ?v "''''"] obtain pre post where
    pp: "?ks = pre @ ?k # post" "\<forall>c\<in>set pre. \<not> ?v < c" "?v < ?k \<or> post = []"
    by blast
  from bestChildLoop_is_key [OF assms(1,3)] obtain nxt where
    nxt: "map_of children ?k = Some nxt" by blast
  from descend_fallback_step [OF assms(2,4,5) nxt]
  have "descend ro what row cur = descend ro what row nxt" .
  with pp nxt show ?thesis by blast
qed

theorem descend_unseen_value_witness:
  "validOrder id \<and> Children treeThree = Some [(''x'', ruleOnB)] \<and>
   GetAttrIndex validThree (SplitAttr treeThree) = Some 0 \<and>
   map_of [(''x'', ruleOnB)] (GetStr ([''z'', ''b2'', ''d''], ''1'') 0) = None \<and>
   descend id validThree ([''z'', ''b2'', ''d''], ''1'') treeThree =
     descend id validThree ([''z'', ''b2'', ''d''], ''1'') ruleOnB"
proof -
  have v: "validOrder id" by (rule validOrder_id)
  have c: "Children treeThree = Some [(''x'', ruleOnB)]" by (simp add: treeThree_def)
  have n: "[(''x'', ruleOnB)] \<noteq> []" by simp
  have g: "GetAttrIndex validThree (SplitAttr treeThree) = Some 0"
    by (simp add: GetAttrIndex_def treeThree_def validThree_def)
  have m: "map_of [(''x'', ruleOnB)] (GetStr ([''z'', ''b2'', ''d''], ''1'') 0) = None"
    by (simp add: GetStr_def)
  from descend_unseen_value [OF v c n g m] have
    "descend id validThree ([''z'', ''b2'', ''d''], ''1'') treeThree =
       descend id validThree ([''z'', ''b2'', ''d''], ''1'') ruleOnB"
    by (auto simp: rangeKeys_def GetStr_def)
  with v c g m show ?thesis by simp
qed

subsection \<open>The tree orchestrator\<close>

text \<open>
  C7.  With a pruning ratio of at most 0.001 (the \<^verbatim>\<open>float64\<close> constant, which is not
  less than 1/1000), \<open>Fit\<close> induces the tree over the whole dataset and the root is the
  induced tree, unpruned.  With a larger ratio it hands the dataset and the ratio to the
  train/validation split, induces on the training part and prunes the induced tree with
  the validation part.
\<close>

theorem Fit_prune_ratio:
  "(PruneSplit t \<le> pruneThreshold \<longrightarrow>
      Fit ro rule split t on =
        (case InferID3Tree ro rule on of
           Inl e \<Rightarrow> Inl e
         | Inr induced \<Rightarrow> Inr (t\<lparr> Root := Some induced \<rparr>))) \<and>
   (pruneThreshold < PruneSplit t \<longrightarrow>
      Fit ro rule split t on =
        (case InferID3Tree ro rule (fst (split on (PruneSplit t))) of
           Inl e \<Rightarrow> Inl e
         | Inr induced \<Rightarrow>
             (case Prune ro induced (snd (split on (PruneSplit t))) of
                Inl e \<Rightarrow> Inl e
              | Inr pruned \<Rightarrow> Inr (t\<lparr> Root := Some pruned \<rparr>)))) \<and>
   1 / 1000 \<le> pruneThreshold"
  by (simp add: Fit_def case_prod_beta pruneThreshold_def)

theorem Fit_prune_ratio_witness:
  "PruneSplit (NewID3DecisionTree pruneThreshold) \<le> pruneThreshold \<and>
   Fit id firstColumn splitFirst (NewID3DecisionTree pruneThreshold) trainThree =
     Inr \<lparr> Root = Some treeThree, PruneSplit = pruneThreshold \<rparr> \<and>
   pruneThreshold < PruneSplit (NewID3DecisionTree (1 / 2)) \<and>
   Fit id firstColumn splitFirst (NewID3DecisionTree (1 / 2)) allThree =
     Inr \<lparr> Root = Some (setChildren treeThree None), PruneSplit = 1 / 2 \<rparr>"
proof -
  have a: "PruneSplit (NewID3DecisionTree pruneThreshold) \<le> pruneThreshold"
    by (simp add: NewID3DecisionTree_def)
  have b: "pruneThreshold < PruneSplit (NewID3DecisionTree (1 / 2))"
    by (simp add: NewID3DecisionTree_def pruneThreshold_def)
  from a Fit_prune_ratio
    [of "NewID3DecisionTree pruneThreshold" id firstColumn splitFirst trainThree]
  have 1: "Fit id firstColumn splitFirst (NewID3DecisionTree pruneThreshold) trainThree =
     Inr \<lparr> Root = Some treeThree, PruneSplit = pruneThreshold \<rparr>"
    by (simp add: InferID3Tree_trainThree NewID3DecisionTree_def)
  from b Fit_prune_ratio
    [of "NewID3DecisionTree (1 / 2)" id firstColumn splitFirst allThree]
  have 2: "Fit id firstColumn splitFirst (NewID3DecisionTree (1 / 2)) allThree =
     Inr \<lparr> Root = Some (setChildren treeThree None), PruneSplit = 1 / 2 \<rparr>"
    by (simp add: InferID3Tree_trainThree Prune_treeThree NewID3DecisionTree_def
        splitFirst_allThree)
  from a b 1 2 show ?thesis by simp
qed

subsection \<open>The ensemble\<close>

lemma addTreesLoop_replicate:
  "addTreesLoop i n m =
     m\<lparr> Models := Models m @ replicate (nat (n - i)) (NewID3DecisionTree 0) \<rparr>"
proof (induction i n m rule: addTreesLoop.induct)
  case (1 i n m)
  show ?case
  proof (cases "i < n")
    case True
    then have "nat (n - i) = Suc (nat (n - (i + 1)))" by simp
    with True 1 show ?thesis
      by (subst addTreesLoop.simps) (simp add: AddModel_def replicate_app_Cons_same)
  next
    case False
    then show ?thesis by (subst addTreesLoop.simps) simp
  qed
qed

text \<open>
  C8.  \<open>RandomForest.Fit\<close> hands to the training of the bagging aggregator a model
  whose feature count is the forest's \<open>Features\<close> and whose members are \<open>ForestSize\<close>
  tree orchestrators (none for a negative size) made with the ratio 0, for which \<open>Fit\<close>
  of a member only induces and never prunes; the forest keeps what the aggregator returns.
  \<open>RandomForest.Predict\<close> is the aggregator's prediction on the forest's model and
  nothing else.
\<close>

theorem RandomForest_delegates:
  "RandomForest_Fit baggedFit f on =
     (case baggedFit \<lparr> RandomFeatures = Features f,
                       Models = replicate (nat (ForestSize f)) (NewID3DecisionTree 0) \<rparr> on of
        Inl e \<Rightarrow> Inl e
      | Inr fitted \<Rightarrow> Inr (f\<lparr> Model := Some fitted \<rparr>)) \<and>
   int (length (replicate (nat (ForestSize f)) (NewID3DecisionTree 0))) =
     max 0 (ForestSize f) \<and>
   Fit ro rule split (NewID3DecisionTree 0) inst =
     (case InferID3Tree ro rule inst of
        Inl e \<Rightarrow> Inl e
      | Inr induced \<Rightarrow> Inr \<lparr> Root = Some induced, PruneSplit = 0 \<rparr>) \<and>
   RandomForest_Predict baggedPredict f w = baggedPredict (Model f) w"
  by (simp add: RandomForest_Fit_def RandomForest_Predict_def addTreesLoop_replicate Fit_def
      NewID3DecisionTree_def pruneThreshold_def split: sum.splits)

subsection \<open>Termination of prediction\<close>

lemma nonemptyChildren_child:
  assumes "nonemptyChildren d" and "Children d = Some children"
    and "map_of children k = Some c"
  shows "nonemptyChildren c"
proof -
  from assms(3) have "(k, c) \<in> set children" by (rule map_of_SomeD)
  with assms(1,2) show ?thesis
    by (subst (asm) nonemptyChildren.simps) auto
qed

lemma nonemptyChildren_nonempty:
  "nonemptyChildren d \<Longrightarrow> Children d = Some children \<Longrightarrow> children \<noteq> []"
  by (subst (asm) nonemptyChildren.simps) simp

lemma descend_ends:
  assumes "validOrder ro"
  shows "nonemptyChildren cur \<Longrightarrow>
         \<exists>n. descend ro what row cur = Inr n \<and>
             (Children n = None \<or> GetAttrIndex what (SplitAttr n) = None)"
proof (induction "size cur" arbitrary: cur rule: less_induct)
  case less
  show ?case
  proof (cases "Children cur = None \<or> GetAttrIndex what (SplitAttr cur) = None")
    case True
    then show ?thesis using descend_stop [OF True] by simp
  next
    case False
    then obtain children j where ch: "Children cur = Some children"
      and j: "GetAttrIndex what (SplitAttr cur) = Some j" by auto
    have "\<exists>next. map_of children next \<noteq> None \<and>
            descend ro what row cur = descend ro what row (the (map_of children next))"
    proof (cases "map_of children (GetStr row j)")
      case (Some nxt)
      from descend_match_step [OF ch j Some] Some show ?thesis by force
    next
      case None
      from less.prems ch have "children \<noteq> []" by (rule nonemptyChildren_nonempty)
      from bestChildLoop_is_key [OF assms this] obtain nxt where
        nxt: "map_of children (bestChildLoop (rangeKeys ro children) (GetStr row j) '''') =
                Some nxt" by blast
      from descend_fallback_step [OF ch j None nxt] nxt show ?thesis by force
    qed
    then obtain k nxt where nxt: "map_of children k = Some nxt"
      "descend ro what row cur = descend ro what row nxt" by force
    have "size nxt < size cur" using ch nxt(1) by (rule size_child)
    moreover have "nonemptyChildren nxt"
      using less.prems ch nxt(1) by (rule nonemptyChildren_child)
    ultimately obtain n where "descend ro what row nxt = Inr n"
      "Children n = None \<or> GetAttrIndex what (SplitAttr n) = None"
      using less.hyps by blast
    with nxt(2) show ?thesis by simp
  qed
qed

lemma predictRows_length:
  assumes "\<forall>row \<in> set rs. \<exists>n. descend ro what row d = Inr n"
  shows "\<exists>labels. predictRows ro d what rs = Inr labels \<and> length labels = length rs"
  using assms
proof (induction rs)
  case Nil
  then show ?case by simp
next
  case (Cons row rs)
  then obtain n where n: "descend ro what row d = Inr n" by auto
  from Cons obtain labels where
    "predictRows ro d what rs = Inr labels" "length labels = length rs"
    by auto
  with n show ?case by simp
qed

subsection \<open>Accuracy\<close>

lemma sum_count_remdups: "sum_list (map (count_list xs) (remdups xs)) = length xs"
proof -
  have "sum_list (map (count_list xs) (remdups xs)) = sum (count_list xs) (set xs)"
    using sum_list_distinct_conv_sum_set [of "remdups xs" "count_list xs"] by simp
  also have "\<dots> = length xs" by (rule sum_count_set) simp_all
  finally show ?thesis .
qed

lemma count_list_filter: "P c \<Longrightarrow> count_list (filter P xs) c = count_list xs c"
  by (induction xs) auto

lemma sum_count_filter_remdups:
  "sum_list (map (count_list xs) (filter P (remdups xs))) = length (filter P xs)"
proof -
  have "map (count_list xs) (remdups (filter P xs)) =
        map (count_list (filter P xs)) (remdups (filter P xs))"
    by (rule map_cong) (simp_all add: count_list_filter)
  then have "sum_list (map (count_list xs) (remdups (filter P xs))) = length (filter P xs)"
    by (simp only: sum_count_remdups)
  then show ?thesis by (simp only: remdups_filter)
qed

lemma computeAccuracy_count:
  "computeAccuracy predictions inst =
     (let n = min (length (rows inst)) (length (rows predictions))
      in if n = 0 then NaN
         else Ratio (of_nat (correctCount predictions inst) / of_nat n))"
proof -
  let ?pairs = "zip (GetClass inst) (GetClass predictions)"
  let ?cm = "map (\<lambda>c. (c, count_list ?pairs c)) (remdups ?pairs)"
  have total: "sum_list (map snd ?cm) = length ?pairs"
    by (simp add: comp_def sum_count_remdups)
  have "map snd (filter (\<lambda>cell. fst (fst cell) = snd (fst cell)) ?cm) =
        map (count_list ?pairs) (filter (\<lambda>tp. fst tp = snd tp) (remdups ?pairs))"
    by (simp add: filter_map comp_def)
  then have correct: "sum_list (map snd (filter (\<lambda>cell. fst (fst cell) = snd (fst cell)) ?cm)) =
        length (filter (\<lambda>tp. fst tp = snd tp) ?pairs)"
    by (simp only: sum_count_filter_remdups)
  have len: "length ?pairs = min (length (rows inst)) (length (rows predictions))"
    by (simp add: GetClass_def)
  show ?thesis
    unfolding computeAccuracy_def GetConfusionMatrix_def GetAccuracy_def Let_def correctCount_def
    unfolding total correct len by simp
qed

lemma accLess_count:
  assumes "length (rows p) = length (rows inst)" and "length (rows q) = length (rows inst)"
  shows "accLess (computeAccuracy p inst) (computeAccuracy q inst) \<longleftrightarrow>
         correctCount p inst < correctCount q inst"
proof (cases "rows inst = []")
  case True
  with assms show ?thesis
    by (simp add: computeAccuracy_count accLess_def correctCount_def GetClass_def)
next
  case False
  then have "0 < length (rows inst)" by simp
  with assms show ?thesis
    by (simp add: computeAccuracy_count accLess_def divide_less_cancel)
qed

lemma predictRows_Inr_length:
  "predictRows ro d what rs = Inr labels \<Longrightarrow> length labels = length rs"
  by (induction rs arbitrary: labels) (auto split: sum.splits)

lemma Predict_Inr_length:
  "Predict ro d what = Inr p \<Longrightarrow> length (rows p) = length (rows what)"
  by (auto simp: Predict_def predictRows_Inr_length split: sum.splits)

subsection \<open>Pruning\<close>

lemma sameFrame_refl: "sameFrame d d"
proof (induction "size d" arbitrary: d rule: less_induct)
  case less
  show ?case
  proof (cases "Children d")
    case None
    then show ?thesis by (subst sameFrame.simps) simp
  next
    case (Some children)
    have "list_all2 (\<lambda>kc kc'. fst kc' = fst kc \<and> sameFrame (snd kc) (snd kc')) children children"
      using less.hyps size_child_mem [OF Some] by (simp add: list_all2_same)
    with Some show ?thesis by (subst sameFrame.simps) simp
  qed
qed

lemma collectChildren_map:
  "collectChildren (map (\<lambda>kc. (fst kc, f kc)) cs) = Inr ps \<Longrightarrow>
   list_all2 (\<lambda>kc p. fst p = fst kc \<and> f kc = Inr (snd p)) cs ps"
  by (induction cs arbitrary: ps) (auto split: sum.splits)

lemma Prune_leaf: "Children d = None \<Longrightarrow> Prune ro d u = Inr d"
  by (subst Prune.simps) simp

lemma Prune_no_split: "SplitAttr d = None \<Longrightarrow> Prune ro d u = Inr d"
  by (subst Prune.simps) (simp split: option.splits)

lemma Predict_collapsed:
  "Predict ro (setChildren d None) u =
     Inr \<lparr> attributes = [], classAttr = classAttr u, rows = map (\<lambda>r. ([], Class d)) (rows u) \<rparr>"
proof -
  have "predictRows ro (setChildren d None) u rs = Inr (map (\<lambda>r. Class d) rs)" for rs
    by (induction rs) (simp_all add: descend.simps setChildren_def)
  then show ?thesis by (simp add: Predict_def comp_def)
qed

lemma Prune_rule:
  assumes "Children d = Some children" and "SplitAttr d = Some a"
  shows "Prune ro d u =
     (case DecomposeOnAttributeValues u a of
        Inl e \<Rightarrow> Inl e
      | Inr sub \<Rightarrow>
          (case pruneChildren ro sub children of
             Inl e \<Rightarrow> Inl e
           | Inr pruned \<Rightarrow>
               (case Predict ro (setChildren d (Some pruned)) u of
                  Inl e \<Rightarrow> Inl e
                | Inr basePredictions \<Rightarrow>
                    (case Predict ro (setChildren d None) u of
                       Inl e \<Rightarrow> Inl e
                     | Inr newPredictions \<Rightarrow>
                         if accLess (computeAccuracy newPredictions u)
                              (computeAccuracy basePredictions u)
                         then Inr (setChildren d (Some pruned))
                         else Inr (setChildren d None)))))"
  using assms
  by (subst Prune.simps)
     (simp add: pruneChildren_def pruneChild_def Let_def setChildren_def split: sum.splits)

lemma Prune_frame:
  "Prune ro d u = Inr d' \<Longrightarrow> sameFrame d d'"
proof (induction "size d" arbitrary: d d' u rule: less_induct)
  case less
  show ?case
  proof (cases "Children d = None \<or> SplitAttr d = None")
    case True
    with less.prems have "d' = d" by (auto simp: Prune_leaf Prune_no_split)
    then show ?thesis by (simp add: sameFrame_refl)
  next
    case False
    then obtain children a where ch: "Children d = Some children" and a: "SplitAttr d = Some a"
      by auto
    from less.prems obtain sub pruned where
      sub: "DecomposeOnAttributeValues u a = Inr sub"
      and pr: "pruneChildren ro sub children = Inr pruned"
      and d': "d' = setChildren d (Some pruned) \<or> d' = setChildren d None"
      by (auto simp: Prune_rule [OF ch a] split: sum.splits if_splits)
    from pr have l2: "list_all2 (\<lambda>kc p. fst p = fst kc \<and> pruneChild ro sub kc = Inr (snd p))
                        children pruned"
      unfolding pruneChildren_def by (rule collectChildren_map)
    have "list_all2 (\<lambda>kc kc'. fst kc' = fst kc \<and> sameFrame (snd kc) (snd kc')) children pruned"
    proof (rule list.rel_mono_strong [OF l2])
      fix kc p
      assume kc: "kc \<in> set children" and "p \<in> set pruned"
        and h: "fst p = fst kc \<and> pruneChild ro sub kc = Inr (snd p)"
      have "sameFrame (snd kc) (snd p)"
      proof (cases "map_of sub (fst kc)")
        case None
        with h have "snd p = snd kc" by (simp add: pruneChild_def)
        then show ?thesis by (simp add: sameFrame_refl)
      next
        case (Some s)
        with h have "Prune ro (snd kc) s = Inr (snd p)" by (simp add: pruneChild_def)
        moreover have "size (snd kc) < size d" using ch kc by (rule size_child_mem)
        ultimately show ?thesis using less.hyps by blast
      qed
      with h show "fst p = fst kc \<and> sameFrame (snd kc) (snd p)" by simp
    qed
    with d' ch show ?thesis
      by (subst sameFrame.simps) (auto simp: setChildren_def)
  qed
qed

text \<open>
  C9.  When \<open>Prune\<close> returns, the node has its \<^verbatim>\<open>Type\<close>, \<^verbatim>\<open>SplitAttr\<close>,
  \<^verbatim>\<open>ClassDist\<close>, \<^verbatim>\<open>Class\<close> and \<^verbatim>\<open>ClassAttr\<close> as before, and so has every
  node below it that is still in the tree (\<open>sameFrame\<close>): only \<^verbatim>\<open>Children\<close> fields
  change.  In particular a node whose children were removed still has its split attribute.
\<close>

theorem Prune_changes_children_only:
  assumes "Prune ro d usingInst = Inr d'"
  shows "Type d' = Type d \<and> SplitAttr d' = SplitAttr d \<and> ClassDist d' = ClassDist d \<and>
         Class d' = Class d \<and> ClassAttr d' = ClassAttr d \<and> sameFrame d d' \<and>
         (Children d' = None \<longrightarrow> SplitAttr d' = SplitAttr d)"
proof -
  from assms have "sameFrame d d'" by (rule Prune_frame)
  then show ?thesis by (subst (asm) sameFrame.simps) (simp add: \<open>sameFrame d d'\<close>)
qed

theorem Prune_changes_children_only_witness:
  "Prune id treeThree validThree = Inr (setChildren treeThree None) \<and>
   Children (setChildren treeThree None) = None \<and>
   SplitAttr (setChildren treeThree None) = Some attrA \<and>
   Class (setChildren treeThree None) = ''0'' \<and>
   sameFrame treeThree (setChildren treeThree None)"
proof -
  from Prune_changes_children_only [OF Prune_treeThree]
  have "SplitAttr (setChildren treeThree None) = SplitAttr treeThree"
    "Class (setChildren treeThree None) = Class treeThree"
    "sameFrame treeThree (setChildren treeThree None)"
    by simp_all
  moreover have "SplitAttr treeThree = Some attrA" "Class treeThree = ''0''"
    by (simp_all add: treeThree_def)
  moreover have "Children (setChildren treeThree None) = None"
    by (simp add: setChildren_def)
  ultimately show ?thesis using Prune_treeThree by simp
qed

text \<open>
  C6.  At a node with children and a split attribute, once the children are pruned
  (\<open>pruneChildren\<close>), \<open>Prune\<close> compares the accuracy of the node without children
  with the accuracy of the node with its pruned children, both over the validation rows
  that reach the node.  The children are restored exactly when the accuracy without them
  is strictly smaller, that is when fewer rows are predicted correctly; otherwise, and so
  also when the two are equal, the node stays without children.
\<close>

theorem Prune_keeps_collapsed_unless_worse:
  assumes "Children d = Some children" and "SplitAttr d = Some a"
    and "Prune ro d usingInst = Inr d'"
  shows "\<exists>sub pruned basePredictions newPredictions.
           DecomposeOnAttributeValues usingInst a = Inr sub \<and>
           pruneChildren ro sub children = Inr pruned \<and>
           Predict ro (setChildren d (Some pruned)) usingInst = Inr basePredictions \<and>
           Predict ro (setChildren d None) usingInst = Inr newPredictions \<and>
           d' = (if accLess (computeAccuracy newPredictions usingInst)
                      (computeAccuracy basePredictions usingInst)
                 then setChildren d (Some pruned) else setChildren d None) \<and>
           (accLess (computeAccuracy newPredictions usingInst)
                      (computeAccuracy basePredictions usingInst) \<longleftrightarrow>
            correctCount newPredictions usingInst < correctCount basePredictions usingInst)"
proof -
  from assms(3) obtain sub pruned bp np where
    1: "DecomposeOnAttributeValues usingInst a = Inr sub"
    and 2: "pruneChildren ro sub children = Inr pruned"
    and 3: "Predict ro (setChildren d (Some pruned)) usingInst = Inr bp"
    and 4: "Predict ro (setChildren d None) usingInst = Inr np"
    and 5: "d' = (if accLess (computeAccuracy np usingInst) (computeAccuracy bp usingInst)
                 then setChildren d (Some pruned) else setChildren d None)"
    by (auto simp: Prune_rule [OF assms(1,2)] split: sum.splits if_splits)
  from 3 4 have "length (rows np) = length (rows usingInst)"
    "length (rows bp) = length (rows usingInst)"
    by (auto dest: Predict_Inr_length)
  then have "accLess (computeAccuracy np usingInst) (computeAccuracy bp usingInst) \<longleftrightarrow>
            correctCount np usingInst < correctCount bp usingInst"
    by (rule accLess_count)
  with 1 2 3 4 5 show ?thesis by blast
qed

theorem Prune_keeps_collapsed_unless_worse_witness:
  "Children treeThree = Some [(''x'', ruleOnB)] \<and> SplitAttr treeThree = Some attrA \<and>
   Prune id treeThree validThree = Inr (setChildren treeThree None) \<and>
   (\<exists>sub pruned basePredictions newPredictions.
      DecomposeOnAttributeValues validThree attrA = Inr sub \<and>
      pruneChildren id sub [(''x'', ruleOnB)] = Inr pruned \<and>
      Predict id (setChildren treeThree (Some pruned)) validThree = Inr basePredictions \<and>
      Predict id (setChildren treeThree None) validThree = Inr newPredictions \<and>
      setChildren treeThree None =
        (if accLess (computeAccuracy newPredictions validThree)
              (computeAccuracy basePredictions validThree)
         then setChildren treeThree (Some pruned) else setChildren treeThree None) \<and>
      (accLess (computeAccuracy newPredictions validThree)
              (computeAccuracy basePredictions validThree) \<longleftrightarrow>
       correctCount newPredictions validThree < correctCount basePredictions validThree))"
proof -
  have c: "Children treeThree = Some [(''x'', ruleOnB)]" by (simp add: treeThree_def)
  have a: "SplitAttr treeThree = Some attrA" by (simp add: treeThree_def)
  from Prune_keeps_collapsed_unless_worse [OF c a Prune_treeThree] c a Prune_treeThree
  show ?thesis by simp
qed

subsection \<open>The majority label\<close>

lemma validOrder_rev: "validOrder rev"
  by (simp add: validOrder_def)

lemma maxClassLoop_first_max:
  "maxClassLoop classes ks mv mc = r \<Longrightarrow>
   (r = mc \<and> (\<forall>k\<in>set ks. lookupCount classes k \<le> mv)) \<or>
   (\<exists>pre post. ks = pre @ r # post \<and> mv < lookupCount classes r \<and>
      (\<forall>k\<in>set pre. lookupCount classes k < lookupCount classes r) \<and>
      (\<forall>k\<in>set post. lookupCount classes k \<le> lookupCount classes r))"
proof (induction ks arbitrary: mv mc)
  case Nil
  then show ?case by simp
next
  case (Cons i rest)
  let ?c = "lookupCount classes"
  show ?case
  proof (cases "mv < ?c i")
    case True
    with Cons.prems have res: "maxClassLoop classes rest (?c i) i = r" by simp
    from Cons.IH [OF res] show ?thesis
    proof
      assume h: "r = i \<and> (\<forall>k\<in>set rest. ?c k \<le> ?c i)"
      then have "i # rest = [] @ r # rest \<and> mv < ?c r \<and> (\<forall>k\<in>set []. ?c k < ?c r) \<and>
        (\<forall>k\<in>set rest. ?c k \<le> ?c r)" using True by simp
      then show ?thesis by blast
    next
      assume "\<exists>pre post. rest = pre @ r # post \<and> ?c i < ?c r \<and>
        (\<forall>k\<in>set pre. ?c k < ?c r) \<and> (\<forall>k\<in>set post. ?c k \<le> ?c r)"
      then obtain pre post where pp: "rest = pre @ r # post" "?c i < ?c r"
        "\<forall>k\<in>set pre. ?c k < ?c r" "\<forall>k\<in>set post. ?c k \<le> ?c r" by blast
      then have "i # rest = (i # pre) @ r # post \<and> mv < ?c r \<and>
        (\<forall>k\<in>set (i # pre). ?c k < ?c r) \<and> (\<forall>k\<in>set post. ?c k \<le> ?c r)"
        using True by simp
      then show ?thesis by blast
    qed
  next
    case False
    with Cons.prems have res: "maxClassLoop classes rest mv mc = r" by simp
    from Cons.IH [OF res] show ?thesis
    proof
      assume "r = mc \<and> (\<forall>k\<in>set rest. ?c k \<le> mv)"
      with False show ?thesis by simp
    next
      assume "\<exists>pre post. rest = pre @ r # post \<and> mv < ?c r \<and>
        (\<forall>k\<in>set pre. ?c k < ?c r) \<and> (\<forall>k\<in>set post. ?c k \<le> ?c r)"
      then obtain pre post where pp: "rest = pre @ r # post" "mv < ?c r"
        "\<forall>k\<in>set pre. ?c k < ?c r" "\<forall>k\<in>set post. ?c k \<le> ?c r" by blast
      then have "i # rest = (i # pre) @ r # post \<and> mv < ?c r \<and>
        (\<forall>k\<in>set (i # pre). ?c k < ?c r) \<and> (\<forall>k\<in>set post. ?c k \<le> ?c r)"
        using False by simp
      then show ?thesis by blast
    qed
  qed
qed

lemma CountClassValues_keys: "map fst (CountClassValues inst) = remdups (map snd (rows inst))"
  by (simp add: CountClassValues_def Let_def comp_def)

lemma CountClassValues_distinct: "distinct (map fst (CountClassValues inst))"
  by (simp add: CountClassValues_keys)

lemma CountClassValues_lookup:
  "lookupCount (CountClassValues inst) k = count_list (map snd (rows inst)) k"
proof -
  let ?ls = "map snd (rows inst)"
  have "map_of (map (\<lambda>k. (k, count_list ?ls k)) (remdups ?ls)) k =
        (if k \<in> set ?ls then Some (count_list ?ls k) else None)"
    by (simp add: map_of_map_restrict restrict_map_def)
  then show ?thesis
    by (auto simp: lookupCount_def CountClassValues_def Let_def count_list_0_iff)
qed

lemma CountClassValues_positive:
  "kc \<in> set (CountClassValues inst) \<Longrightarrow> 0 < snd kc \<and> snd kc = lookupCount (CountClassValues inst) (fst kc)"
proof -
  assume "kc \<in> set (CountClassValues inst)"
  then obtain k where k: "k \<in> set (map snd (rows inst))"
    "kc = (k, count_list (map snd (rows inst)) k)"
    by (auto simp: CountClassValues_def Let_def)
  from k(1) have "count_list (map snd (rows inst)) k \<noteq> 0"
    by (simp only: count_list_0_iff not_not)
  with k(2) show ?thesis by (simp add: CountClassValues_lookup)
qed

lemma InferID3Tree_Class:
  assumes "InferID3Tree ro gen inst = Inr d"
  shows "ClassDist d = CountClassValues inst \<and>
         Class d = (if length (CountClassValues inst) = 1
                    then onlyClassLoop (rangeKeys ro (CountClassValues inst)) ''''
                    else maxClassLoop (CountClassValues inst)
                           (rangeKeys ro (CountClassValues inst)) 0 '''')"
  using assms
  by (subst (asm) InferID3Tree.simps)
     (auto simp: Let_def split: if_splits option.splits sum.splits)

lemma majority_first_max:
  assumes "validOrder ro" and "classes \<noteq> []"
    and pos: "\<forall>kc\<in>set classes. 0 < snd kc \<and> snd kc = lookupCount classes (fst kc)"
    and r: "r = maxClassLoop classes (rangeKeys ro classes) 0 ''''"
  shows "r \<in> fst ` set classes \<and>
         (\<forall>kc\<in>set classes. snd kc \<le> lookupCount classes r) \<and>
         (\<exists>pre post. rangeKeys ro classes = pre @ r # post \<and>
            (\<forall>k\<in>set pre. lookupCount classes k < lookupCount classes r) \<and>
            (\<forall>k\<in>set post. lookupCount classes k \<le> lookupCount classes r))"
proof -
  let ?ks = "rangeKeys ro classes"
  let ?c = "lookupCount classes"
  have ks: "set ?ks = fst ` set classes"
    using assms(1) by (simp add: rangeKeys_def validOrder_set)
  from assms(2) obtain kc where kc: "kc \<in> set classes" by (cases classes) auto
  with pos have "0 < ?c (fst kc)" by auto
  moreover from kc ks have "fst kc \<in> set ?ks" by auto
  ultimately have no: "\<not> (\<forall>k\<in>set ?ks. ?c k \<le> 0)" by auto
  from maxClassLoop_first_max [OF r [symmetric]] no obtain pre post where
    pp: "?ks = pre @ r # post" "\<forall>k\<in>set pre. ?c k < ?c r" "\<forall>k\<in>set post. ?c k \<le> ?c r"
    by blast
  from pp(1) have rin: "r \<in> set ?ks" by (metis in_set_conv_decomp)
  have "\<forall>k\<in>set ?ks. ?c k \<le> ?c r"
  proof
    fix k assume "k \<in> set ?ks"
    with pp(1) have "k \<in> set pre \<or> k = r \<or> k \<in> set post" by auto
    with pp(2,3) show "?c k \<le> ?c r" by auto
  qed
  then have "\<forall>kc\<in>set classes. snd kc \<le> ?c r" using ks pos by force
  with rin ks pp show ?thesis by blast
qed

text \<open>
  C2, as stated: for a partition with more than one class the majority label is a label
  with the highest count and, when several labels have the highest count, the
  lexicographically smallest of them, never a label that depends on the order of
  iteration.  It fails on Scenario A, where the labels \<open>0\<close> and \<open>1\<close> both have
  two rows: when the loop over the histogram meets \<open>1\<close> first, the node gets the label
  \<open>1\<close>, which is not the smallest.
\<close>

theorem majority_tie_counterexample:
  "validOrder rev \<and> InferID3Tree rev firstColumn scenarioA = Inr tieLeafOne \<and>
   ClassDist tieLeafOne = [(''0'', 2), (''1'', 2)] \<and> Class tieLeafOne = ''1'' \<and>
   ''0'' < ''1''"
proof -
  have "InferID3Tree rev firstColumn scenarioA = Inr tieLeafOne"
    by code_simp
  with validOrder_rev show ?thesis by (simp add: tieLeafOne_def)
qed

text \<open>
  C2, amended: for a partition with more than one class the majority label of the node is
  a label of the histogram with the highest count; when several labels have the highest
  count it is the one among them that the iteration over the histogram visits first
  (every label visited before it has a strictly smaller count).
\<close>

theorem majority_is_first_highest_count:
  assumes "validOrder ro" and "InferID3Tree ro gen inst = Inr d"
    and "1 < length (CountClassValues inst)"
  shows "ClassDist d = CountClassValues inst \<and>
         Class d \<in> fst ` set (ClassDist d) \<and>
         (\<forall>kc\<in>set (ClassDist d). snd kc \<le> lookupCount (ClassDist d) (Class d)) \<and>
         (\<exists>pre post. rangeKeys ro (ClassDist d) = pre @ Class d # post \<and>
            (\<forall>k\<in>set pre. lookupCount (ClassDist d) k < lookupCount (ClassDist d) (Class d)) \<and>
            (\<forall>k\<in>set post. lookupCount (ClassDist d) k \<le> lookupCount (ClassDist d) (Class d)))"
proof -
  let ?classes = "CountClassValues inst"
  from InferID3Tree_Class [OF assms(2)] assms(3) have
    cd: "ClassDist d = ?classes"
    and cl: "Class d = maxClassLoop ?classes (rangeKeys ro ?classes) 0 ''''" by auto
  from assms(3) have ne: "?classes \<noteq> []" by auto
  have pos: "\<forall>kc\<in>set ?classes. 0 < snd kc \<and> snd kc = lookupCount ?classes (fst kc)"
    using CountClassValues_positive by blast
  from majority_first_max [OF assms(1) ne pos cl] cd show ?thesis by simp
qed

theorem majority_is_first_highest_count_witness:
  "validOrder rev \<and> InferID3Tree rev firstColumn scenarioA = Inr tieLeafOne \<and>
   1 < length (CountClassValues scenarioA) \<and>
   ClassDist tieLeafOne = CountClassValues scenarioA \<and>
   Class tieLeafOne \<in> fst ` set (ClassDist tieLeafOne)"
proof -
  have t: "InferID3Tree rev firstColumn scenarioA = Inr tieLeafOne"
    by code_simp
  have n: "1 < length (CountClassValues scenarioA)"
    by (simp add: CountClassValues_def scenarioA_def)
  from majority_is_first_highest_count [OF validOrder_rev t n] validOrder_rev t n
  show ?thesis by blast
qed

subsection \<open>Determinism of induction\<close>

lemma InferID3Tree_unfold:
  "InferID3Tree ro gen inst =
     (if length (CountClassValues inst) = 1 \<or> GetAttributeCount inst = 2 then
        Inr (DecisionTreeNode LeafNode None None (CountClassValues inst) (nodeClass ro inst)
               (classAttr inst))
      else
        (case gen inst of
           None \<Rightarrow>
             Inr (DecisionTreeNode RuleNode None None (CountClassValues inst)
                    (nodeClass ro inst) (classAttr inst))
         | Some a \<Rightarrow>
             (case DecomposeOnAttributeValues inst a of
                Inl e \<Rightarrow> Inl e
              | Inr groups \<Rightarrow>
                  (case collectChildren
                          (map (\<lambda>kv. (fst kv, InferID3Tree ro gen (snd kv))) groups) of
                     Inl e \<Rightarrow> Inl e
                   | Inr children \<Rightarrow>
                       Inr (DecisionTreeNode RuleNode (Some children) (Some a)
                              (CountClassValues inst) (nodeClass ro inst)
                              (classAttr inst))))))"
  by (subst InferID3Tree.simps)
     (auto simp: Let_def nodeClass_def split: option.splits sum.splits)

lemma validOrder_single: "validOrder ro \<Longrightarrow> ro [k] = [k]"
  unfolding validOrder_def by (metis mset_single_iff_right mset.simps(1) mset.simps(2) add_mset_eq_single mset_zero_iff)

lemma validOrder_empty: "validOrder ro \<Longrightarrow> ro [] = []"
  unfolding validOrder_def by (metis mset_zero_iff_right)

lemma nodeClass_agree:
  assumes "validOrder ro1" and "validOrder ro2"
  shows "nodeClass ro1 inst = nodeClass ro2 inst \<or>
         tiedHighest (CountClassValues inst) (nodeClass ro1 inst) (nodeClass ro2 inst)"
proof -
  let ?classes = "CountClassValues inst"
  consider (one) "length ?classes = 1" | (none) "?classes = []" | (more) "1 < length ?classes"
    by (cases ?classes) auto
  then show ?thesis
  proof cases
    case one
    then obtain kc where "?classes = [kc]" by (cases ?classes) auto
    with assms one show ?thesis
      by (simp add: nodeClass_def Let_def rangeKeys_def validOrder_single)
  next
    case none
    with assms show ?thesis
      by (simp add: nodeClass_def Let_def rangeKeys_def validOrder_empty)
  next
    case more
    then have ne: "?classes \<noteq> []" by auto
    have pos: "\<forall>kc\<in>set ?classes. 0 < snd kc \<and> snd kc = lookupCount ?classes (fst kc)"
      using CountClassValues_positive by blast
    from more have c1: "nodeClass ro1 inst = maxClassLoop ?classes (rangeKeys ro1 ?classes) 0 ''''"
      and c2: "nodeClass ro2 inst = maxClassLoop ?classes (rangeKeys ro2 ?classes) 0 ''''"
      by (simp_all add: nodeClass_def Let_def)
    from majority_first_max [OF assms(1) ne pos c1] have
      m1: "nodeClass ro1 inst \<in> fst ` set ?classes"
      "\<forall>kc\<in>set ?classes. snd kc \<le> lookupCount ?classes (nodeClass ro1 inst)" by blast+
    from majority_first_max [OF assms(2) ne pos c2] have
      m2: "nodeClass ro2 inst \<in> fst ` set ?classes"
      "\<forall>kc\<in>set ?classes. snd kc \<le> lookupCount ?classes (nodeClass ro2 inst)" by blast+
    from m1(1) obtain kc1 where kc1: "kc1 \<in> set ?classes" "fst kc1 = nodeClass ro1 inst" by auto
    from m2(1) obtain kc2 where kc2: "kc2 \<in> set ?classes" "fst kc2 = nodeClass ro2 inst" by auto
    from kc1 pos m2(2) have "lookupCount ?classes (nodeClass ro1 inst) \<le>
      lookupCount ?classes (nodeClass ro2 inst)" by metis
    moreover from kc2 pos m1(2) have "lookupCount ?classes (nodeClass ro2 inst) \<le>
      lookupCount ?classes (nodeClass ro1 inst)" by metis
    ultimately have "lookupCount ?classes (nodeClass ro1 inst) =
      lookupCount ?classes (nodeClass ro2 inst)" by simp
    with m1 m2 show ?thesis by (simp add: tiedHighest_def)
  qed
qed

lemma collectChildren_rel:
  assumes "\<forall>kv\<in>set xs. rel_sum (=) R (f kv) (g kv)"
  shows "rel_sum (=) (list_all2 (\<lambda>kc1 kc2. fst kc1 = fst kc2 \<and> R (snd kc1) (snd kc2)))
           (collectChildren (map (\<lambda>kv. (fst kv, f kv)) xs))
           (collectChildren (map (\<lambda>kv. (fst kv, g kv)) xs))"
  using assms
proof (induction xs)
  case Nil
  then show ?case by simp
next
  case (Cons x xs)
  from Cons.prems have hd: "rel_sum (=) R (f x) (g x)" by simp
  from Cons have tl: "rel_sum (=) (list_all2 (\<lambda>kc1 kc2. fst kc1 = fst kc2 \<and> R (snd kc1) (snd kc2)))
           (collectChildren (map (\<lambda>kv. (fst kv, f kv)) xs))
           (collectChildren (map (\<lambda>kv. (fst kv, g kv)) xs))" by simp
  from hd tl show ?case
    by (cases "f x"; cases "g x";
        cases "collectChildren (map (\<lambda>kv. (fst kv, f kv)) xs)";
        cases "collectChildren (map (\<lambda>kv. (fst kv, g kv)) xs)") simp_all
qed

text \<open>
  C3, as stated: two runs of \<open>InferID3Tree\<close> on the same partition with the same rule
  generator give identical trees, tie-breaks included.  It fails: the two labels of the
  training set below have one row each, and a run whose loop over the histogram meets
  \<open>0\<close> first labels the root \<open>0\<close> while a run that meets \<open>1\<close> first labels
  it \<open>1\<close>.
\<close>

theorem InferID3Tree_two_runs_counterexample:
  "validOrder id \<and> validOrder rev \<and>
   InferID3Tree id firstColumn trainThree = Inr treeThree \<and> Class treeThree = ''0'' \<and>
   map_sum id Class (InferID3Tree rev firstColumn trainThree) = Inr ''1'' \<and>
   InferID3Tree id firstColumn trainThree \<noteq> InferID3Tree rev firstColumn trainThree"
proof -
  have r: "map_sum id Class (InferID3Tree rev firstColumn trainThree) = Inr ''1''"
    by code_simp
  have c: "Class treeThree = ''0''" by (simp add: treeThree_def)
  have "map_sum id Class (InferID3Tree id firstColumn trainThree) = Inr ''0''"
    by (simp add: InferID3Tree_trainThree c)
  with r have "InferID3Tree id firstColumn trainThree \<noteq>
               InferID3Tree rev firstColumn trainThree"
    by auto
  with r c validOrder_id validOrder_rev InferID3Tree_trainThree show ?thesis by simp
qed

text \<open>
  C3, amended: induction is deterministic up to the tie-breaks of the majority labels.
  Two runs of \<open>InferID3Tree\<close> on the same partition with the same rule generator,
  whatever the orders of their map iterations, both fail with the same error or give two
  trees of the same shape with the same node types, split attributes, child keys,
  histograms and class attributes; the majority labels of two corresponding nodes are
  equal unless the histogram of the node has several labels with the highest count, and
  then each is one of these labels.
\<close>

theorem InferID3Tree_deterministic_up_to_ties:
  assumes "validOrder ro1" and "validOrder ro2"
  shows "rel_sum (=) sameUpToTies (InferID3Tree ro1 gen inst) (InferID3Tree ro2 gen inst)"
proof (induction "length (attributes inst)" arbitrary: inst rule: less_induct)
  case less
  note cls = nodeClass_agree [OF assms, of inst]
  show ?case
  proof (cases "length (CountClassValues inst) = 1 \<or> GetAttributeCount inst = 2")
    case True
    then show ?thesis using cls
      by (simp add: InferID3Tree_unfold [of _ gen inst] sameUpToTies.simps)
  next
    case False
    show ?thesis
    proof (cases "gen inst")
      case None
      with False show ?thesis using cls
        by (simp add: InferID3Tree_unfold [of _ gen inst] sameUpToTies.simps)
    next
      case (Some a)
      show ?thesis
      proof (cases "DecomposeOnAttributeValues inst a")
        case (Inl e)
        with False Some show ?thesis
          by (simp add: InferID3Tree_unfold [of _ gen inst])
      next
        case (Inr groups)
        have "\<forall>kv\<in>set groups. rel_sum (=) sameUpToTies
                (InferID3Tree ro1 gen (snd kv)) (InferID3Tree ro2 gen (snd kv))"
          using less decompose_fewer_attributes [OF Inr] by blast
        from collectChildren_rel [OF this]
        have "rel_sum (=) (list_all2 (\<lambda>kc1 kc2. fst kc1 = fst kc2 \<and> sameUpToTies (snd kc1) (snd kc2)))
           (collectChildren (map (\<lambda>kv. (fst kv, InferID3Tree ro1 gen (snd kv))) groups))
           (collectChildren (map (\<lambda>kv. (fst kv, InferID3Tree ro2 gen (snd kv))) groups))" .
        with False Some Inr cls show ?thesis
          by (cases "collectChildren (map (\<lambda>kv. (fst kv, InferID3Tree ro1 gen (snd kv))) groups)";
              cases "collectChildren (map (\<lambda>kv. (fst kv, InferID3Tree ro2 gen (snd kv))) groups)")
             (simp_all add: InferID3Tree_unfold [of _ gen inst] sameUpToTies.simps)
      qed
    qed
  qed
qed

theorem InferID3Tree_deterministic_up_to_ties_witness:
  "validOrder id \<and> validOrder rev \<and>
   rel_sum (=) sameUpToTies (InferID3Tree id firstColumn trainThree)
     (InferID3Tree rev firstColumn trainThree)"
  using InferID3Tree_deterministic_up_to_ties [OF validOrder_id validOrder_rev]
    validOrder_id validOrder_rev by simp

subsection \<open>Pruning and validation accuracy\<close>

lemma usesAttr_child:
  "Children d = Some cs \<Longrightarrow> kc \<in> set cs \<Longrightarrow> usesAttr b (snd kc) \<Longrightarrow> usesAttr b d"
  by (subst usesAttr.simps) auto

lemma usesAttr_split:
  "Children d = Some cs \<Longrightarrow> SplitAttr d = Some b \<Longrightarrow> usesAttr b d"
  by (subst usesAttr.simps) auto

lemma descend_value_cong:
  "(\<And>b. usesAttr b c \<Longrightarrow> valueOf w r b = valueOf w' r' b) \<Longrightarrow>
   descend ro w r c = descend ro w' r' c"
proof (induction "size c" arbitrary: c rule: less_induct)
  case less
  show ?case
  proof (cases "Children c")
    case None
    then show ?thesis by (simp add: descend_stop)
  next
    case (Some cs)
    note cs = this
    show ?thesis
    proof (cases "SplitAttr c")
      case None
      then show ?thesis by (simp add: descend_stop GetAttrIndex_def)
    next
      case (Some b)
      from less.prems [OF usesAttr_split [OF cs Some]]
      have v: "valueOf w r b = valueOf w' r' b" .
      show ?thesis
      proof (cases "GetAttrIndex w (Some b)")
        case None
        with v have "GetAttrIndex w' (Some b) = None" by (simp add: valueOf_def)
        with None Some show ?thesis by (simp add: descend_stop)
      next
        case j: (Some j)
        with v obtain j' where j': "GetAttrIndex w' (Some b) = Some j'"
          and same: "GetStr r j = GetStr r' j'"
          by (cases "GetAttrIndex w' (Some b)") (auto simp: valueOf_def)
        have rec: "descend ro w r n = descend ro w' r' n" if "map_of cs k = Some n" for k n
        proof -
          from that have mem: "(k, n) \<in> set cs" by (rule map_of_SomeD)
          have "size n < size c" using cs that by (rule size_child)
          moreover have "\<And>b. usesAttr b n \<Longrightarrow> valueOf w r b = valueOf w' r' b"
            using less.prems usesAttr_child [OF cs mem] by simp
          ultimately show ?thesis using less.hyps by blast
        qed
        show ?thesis
        proof (cases "map_of cs (GetStr r j)")
          case (Some n)
          have "descend ro w r c = descend ro w r n"
            using cs j \<open>SplitAttr c = Some b\<close> Some by (subst descend.simps) simp
          moreover have "descend ro w' r' c = descend ro w' r' n"
            using cs j' \<open>SplitAttr c = Some b\<close> Some same by (subst descend.simps) simp
          ultimately show ?thesis using rec [OF Some] by simp
        next
          case None
          let ?k = "bestChildLoop (rangeKeys ro cs) (GetStr r j) ''''"
          show ?thesis
          proof (cases "map_of cs ?k")
            case nk: None
            have "descend ro w r c = Inl NilDereference"
              using cs j \<open>SplitAttr c = Some b\<close> None nk by (subst descend.simps) simp
            moreover have "descend ro w' r' c = Inl NilDereference"
              using cs j' \<open>SplitAttr c = Some b\<close> None nk same by (subst descend.simps) simp
            ultimately show ?thesis by simp
          next
            case (Some n)
            have "descend ro w r c = descend ro w r n"
              using cs j \<open>SplitAttr c = Some b\<close> None Some by (subst descend.simps) simp
            moreover have "descend ro w' r' c = descend ro w' r' n"
              using cs j' \<open>SplitAttr c = Some b\<close> None Some same by (subst descend.simps) simp
            ultimately show ?thesis using rec [OF Some] by simp
          qed
        qed
      qed
    qed
  qed
qed

lemma decompose_groups:
  assumes "DecomposeOnAttributeValues u a = Inr sub"
  shows "\<exists>j. GetAttrIndexIn (attributes u) a = Some j \<and>
             sub = map (\<lambda>v. (v, groupOf u a j v)) (remdups (map (\<lambda>r. GetStr r j) (rows u)))"
  using assms
  by (auto simp: DecomposeOnAttributeValues_def groupOf_def split: option.splits)

lemma decompose_of_index:
  assumes "GetAttrIndexIn (attributes u) a = Some j"
  shows "DecomposeOnAttributeValues u a =
           Inr (map (\<lambda>v. (v, groupOf u a j v)) (remdups (map (\<lambda>r. GetStr r j) (rows u))))"
  using assms by (simp add: DecomposeOnAttributeValues_def groupOf_def)

lemma map_of_groups:
  "map_of (map (\<lambda>v. (v, g v)) (remdups vs)) v = (if v \<in> set vs then Some (g v) else None)"
  by (simp add: map_of_map_restrict restrict_map_def)

lemma GetAttrIndexIn_append:
  "GetAttrIndexIn cols a = Some j \<Longrightarrow> GetAttrIndexIn (cols @ suffix) a = Some j"
  by (induction cols arbitrary: j) (auto split: if_splits)

lemma GetAttrIndexIn_less: "GetAttrIndexIn cols a = Some j \<Longrightarrow> j < length cols"
  by (induction cols arbitrary: j) (auto split: if_splits)

lemma index_value_drop:
  assumes "length vals = length cols" and "b \<noteq> a"
  shows "map_option (\<lambda>j. (map snd (filter (\<lambda>bv. fst bv \<noteq> a) (zip cols vals)) @ [lbl]) ! j)
           (GetAttrIndexIn (filter (\<lambda>c. c \<noteq> a) cols @ [cl]) b) =
         map_option (\<lambda>j. (vals @ [lbl]) ! j) (GetAttrIndexIn (cols @ [cl]) b)"
  using assms
proof (induction vals cols rule: list_induct2)
  case Nil
  then show ?case by simp
next
  case (Cons v vals c cols)
  then show ?case
    by (auto simp: option.map_comp comp_def)
qed

lemma valueOf_dropColumn:
  assumes "b \<noteq> a" and "length (fst r) = length (attributes u)"
  shows "valueOf (groupOf u a j v) (dropColumn (attributes u) a r) b = valueOf u r b"
  using index_value_drop [OF assms(2) assms(1), of "snd r" "classAttr u"]
  by (simp add: valueOf_def GetAttrIndex_def GetStr_def [abs_def] groupOf_def dropColumn_def)

lemma descend_dropColumn:
  assumes "\<not> usesAttr a c" and "length (fst r) = length (attributes u)"
  shows "descend ro (groupOf u a j v) (dropColumn (attributes u) a r) c = descend ro u r c"
proof (rule descend_value_cong)
  fix b assume "usesAttr b c"
  with assms(1) have "b \<noteq> a" by auto
  then show "valueOf (groupOf u a j v) (dropColumn (attributes u) a r) b = valueOf u r b"
    using assms(2) by (rule valueOf_dropColumn)
qed

lemma descend_routes:
  assumes "Children d = Some cs" and "SplitAttr d = Some a"
    and "GetAttrIndexIn (attributes u) a = Some j"
    and "map_of cs (GetStr r j) = Some c"
  shows "descend ro u r d = descend ro u r c"
proof -
  from assms(2,3) have "GetAttrIndex u (SplitAttr d) = Some j"
    by (simp add: GetAttrIndex_def GetAttrIndexIn_append)
  from descend_match_step [OF assms(1) this assms(4)] show ?thesis .
qed

lemma length_filter_by_key:
  "length (filter P xs) = (\<Sum>v\<in>f ` set xs. length (filter (\<lambda>x. f x = v \<and> P x) xs))"
proof -
  have "finite V \<Longrightarrow> f ` set xs \<subseteq> V \<Longrightarrow>
        length (filter P xs) = (\<Sum>v\<in>V. length (filter (\<lambda>x. f x = v \<and> P x) xs))" for V
  proof (induction xs)
    case Nil
    then show ?case by simp
  next
    case (Cons x xs)
    then have IH: "length (filter P xs) = (\<Sum>v\<in>V. length (filter (\<lambda>x. f x = v \<and> P x) xs))"
      and fx: "f x \<in> V" by auto
    have "(\<Sum>v\<in>V. length (filter (\<lambda>y. f y = v \<and> P y) (x # xs))) =
          (\<Sum>v\<in>V. (if f x = v \<and> P x then 1 else 0) + length (filter (\<lambda>y. f y = v \<and> P y) xs))"
      by (rule sum.cong) auto
    also have "\<dots> = (\<Sum>v\<in>V. if f x = v \<and> P x then 1 else 0) +
                     (\<Sum>v\<in>V. length (filter (\<lambda>y. f y = v \<and> P y) xs))"
      by (rule sum.distrib)
    also have "(\<Sum>v\<in>V. if f x = v \<and> P x then 1 else 0) = (if P x then 1 else (0::nat))"
    proof (cases "P x")
      case True
      then have "(\<Sum>v\<in>V. if f x = v \<and> P x then 1 else 0) = (\<Sum>v\<in>V. if f x = v then 1 else (0::nat))"
        by simp
      also have "\<dots> = 1" using Cons.prems(1) fx by (simp add: sum.delta')
      finally show ?thesis using True by simp
    next
      case False
      then show ?thesis by simp
    qed
    finally show ?case using IH by simp
  qed
  from this [of "f ` set xs"] show ?thesis by simp
qed

lemma hits_decompose:
  assumes ch: "Children d = Some cs" and sp: "SplitAttr d = Some a"
    and j: "GetAttrIndexIn (attributes u) a = Some j"
    and wf: "wfInstances u"
    and all: "\<forall>r\<in>set (rows u). \<exists>c. map_of cs (GetStr r j) = Some c \<and> \<not> usesAttr a c"
  shows "hits ro d u (rows u) =
           (\<Sum>v\<in>(\<lambda>r. GetStr r j) ` set (rows u).
              hits ro (the (map_of cs v)) (groupOf u a j v) (rows (groupOf u a j v)))"
proof -
  let ?f = "\<lambda>r. GetStr r j"
  let ?ok = "\<lambda>n w r. map_sum id Class (descend ro w r n) = Inr (snd r)"
  have "hits ro d u (rows u) =
          (\<Sum>v\<in>?f ` set (rows u). length (filter (\<lambda>r. ?f r = v \<and> ?ok d u r) (rows u)))"
    unfolding hits_def by (rule length_filter_by_key)
  also have "\<dots> = (\<Sum>v\<in>?f ` set (rows u).
              hits ro (the (map_of cs v)) (groupOf u a j v) (rows (groupOf u a j v)))"
  proof (rule sum.cong [OF refl])
    fix v assume "v \<in> ?f ` set (rows u)"
    let ?c = "the (map_of cs v)"
    let ?g = "groupOf u a j v"
    have "hits ro ?c ?g (rows ?g) =
            length (filter (\<lambda>r. ?ok ?c ?g (dropColumn (attributes u) a r))
                      (filter (\<lambda>r. ?f r = v) (rows u)))"
      by (simp add: hits_def groupOf_def length_filter_map comp_def)
    also have "\<dots> = length (filter (\<lambda>r. ?f r = v \<and> ?ok ?c ?g (dropColumn (attributes u) a r))
                         (rows u))"
      by (simp add: conj_commute)
    also have "filter (\<lambda>r. ?f r = v \<and> ?ok ?c ?g (dropColumn (attributes u) a r)) (rows u) =
               filter (\<lambda>r. ?f r = v \<and> ?ok d u r) (rows u)"
    proof (rule filter_cong [OF refl])
      fix r assume r: "r \<in> set (rows u)"
      show "(?f r = v \<and> ?ok ?c ?g (dropColumn (attributes u) a r)) = (?f r = v \<and> ?ok d u r)"
      proof (cases "?f r = v")
        case True
        from all r True obtain c where c: "map_of cs v = Some c" "\<not> usesAttr a c" by auto
        from wf r have len: "length (fst r) = length (attributes u)"
          by (simp add: wfInstances_def)
        from c True have "descend ro u r d = descend ro u r c"
          using descend_routes [OF ch sp j, of r c ro] by simp
        moreover have "descend ro ?g (dropColumn (attributes u) a r) c = descend ro u r c"
          using c(2) len by (rule descend_dropColumn)
        ultimately show ?thesis using c(1) by (simp add: dropColumn_def)
      next
        case False
        then show ?thesis by simp
      qed
    qed
    finally show "length (filter (\<lambda>r. ?f r = v \<and> ?ok d u r) (rows u)) =
                  hits ro ?c ?g (rows ?g)" by simp
  qed
  finally show ?thesis .
qed

lemma routed_rule:
  assumes "Children d = Some cs" and "SplitAttr d = Some a"
  shows "routed d u \<longleftrightarrow>
           (\<exists>j. GetAttrIndexIn (attributes u) a = Some j \<and>
                (\<forall>r\<in>set (rows u). GetStr r j \<in> fst ` set cs) \<and>
                (\<forall>kc\<in>set cs. \<not> usesAttr a (snd kc) \<and>
                   (fst kc \<in> (\<lambda>r. GetStr r j) ` set (rows u) \<longrightarrow>
                      routed (snd kc) (groupOf u a j (fst kc)))))"
proof (cases "GetAttrIndexIn (attributes u) a")
  case None
  then have "DecomposeOnAttributeValues u a = Inl ContractViolation"
    by (simp add: DecomposeOnAttributeValues_def)
  with assms None show ?thesis by (subst routed.simps) simp
next
  case (Some j)
  note dec = decompose_of_index [OF Some]
  have "routed d u \<longleftrightarrow>
          (\<forall>r\<in>set (rows u). GetStr r j \<in> fst ` set cs) \<and>
          (\<forall>kc\<in>set cs. \<not> usesAttr a (snd kc) \<and>
             (fst kc \<in> (\<lambda>r. GetStr r j) ` set (rows u) \<longrightarrow>
                routed (snd kc) (groupOf u a j (fst kc))))"
    using assms
    by (subst routed.simps) (auto simp: dec map_of_groups split: option.splits)
  with Some show ?thesis by simp
qed

lemma routed_child:
  assumes "Children d = Some cs" and "SplitAttr d = Some a" and "routed d u"
    and "GetAttrIndexIn (attributes u) a = Some j" and "r \<in> set (rows u)"
  shows "\<exists>c. map_of cs (GetStr r j) = Some c \<and> \<not> usesAttr a c \<and>
             routed c (groupOf u a j (GetStr r j))"
proof -
  from assms have all: "\<forall>r\<in>set (rows u). GetStr r j \<in> fst ` set cs"
    and each: "\<forall>kc\<in>set cs. \<not> usesAttr a (snd kc) \<and>
                   (fst kc \<in> (\<lambda>r. GetStr r j) ` set (rows u) \<longrightarrow>
                      routed (snd kc) (groupOf u a j (fst kc)))"
    by (auto simp: routed_rule [OF assms(1,2)])
  from all assms(5) obtain c where c: "map_of cs (GetStr r j) = Some c"
    by (metis map_of_eq_None_iff not_Some_eq)
  then have "(GetStr r j, c) \<in> set cs" by (rule map_of_SomeD)
  with each assms(5) have "\<not> usesAttr a c \<and> routed c (groupOf u a j (GetStr r j))"
    by force
  with c show ?thesis by simp
qed

lemma length_dropColumn:
  "length vals = length cols \<Longrightarrow>
   length (filter (\<lambda>bv. fst bv \<noteq> a) (zip cols vals)) = length (filter (\<lambda>b. b \<noteq> a) cols)"
  by (induction vals cols rule: list_induct2) auto

lemma wfInstances_groupOf: "wfInstances u \<Longrightarrow> wfInstances (groupOf u a j v)"
  by (auto simp: wfInstances_def groupOf_def dropColumn_def length_dropColumn)

lemma routed_descend_ok:
  "wfInstances u \<Longrightarrow> routed d u \<Longrightarrow> r \<in> set (rows u) \<Longrightarrow> \<exists>n. descend ro u r d = Inr n"
proof (induction "size d" arbitrary: d u r rule: less_induct)
  case less
  show ?case
  proof (cases "Children d = None \<or> SplitAttr d = None")
    case True
    then have "Children d = None \<or> GetAttrIndex u (SplitAttr d) = None"
      by (auto simp: GetAttrIndex_def)
    from descend_stop [OF this] show ?thesis by simp
  next
    case False
    then obtain cs a where cs: "Children d = Some cs" and a: "SplitAttr d = Some a" by auto
    from less.prems(2) obtain j where j: "GetAttrIndexIn (attributes u) a = Some j"
      by (auto simp: routed_rule [OF cs a])
    from routed_child [OF cs a less.prems(2) j less.prems(3)] obtain c where
      c: "map_of cs (GetStr r j) = Some c" "\<not> usesAttr a c"
        "routed c (groupOf u a j (GetStr r j))" by blast
    let ?g = "groupOf u a j (GetStr r j)"
    from less.prems(1,3) have len: "length (fst r) = length (attributes u)"
      by (simp add: wfInstances_def)
    have "size c < size d" using cs c(1) by (rule size_child)
    moreover have "wfInstances ?g" using less.prems(1) by (rule wfInstances_groupOf)
    moreover have "dropColumn (attributes u) a r \<in> set (rows ?g)"
      using less.prems(3) by (simp add: groupOf_def)
    ultimately obtain n where
      "descend ro ?g (dropColumn (attributes u) a r) c = Inr n"
      using less.hyps c(3) by blast
    moreover have "descend ro ?g (dropColumn (attributes u) a r) c = descend ro u r c"
      using c(2) len by (rule descend_dropColumn)
    moreover have "descend ro u r d = descend ro u r c"
      using cs a j c(1) by (rule descend_routes)
    ultimately show ?thesis by simp
  qed
qed

lemma predictRows_hits:
  "predictRows ro d u rs = Inr labels \<Longrightarrow>
   length (filter (\<lambda>tp. fst tp = snd tp) (zip (map snd rs) labels)) = hits ro d u rs"
  by (induction rs arbitrary: labels) (auto simp: hits_def split: sum.splits)

lemma Predict_hits:
  assumes "Predict ro d u = Inr p"
  shows "correctCount p u = hits ro d u (rows u)"
proof -
  from assms obtain labels where l: "predictRows ro d u (rows u) = Inr labels"
    and p: "p = \<lparr> attributes = [], classAttr = classAttr u, rows = map (\<lambda>l. ([], l)) labels \<rparr>"
    by (auto simp: Predict_def split: sum.splits)
  from p have "GetClass p = labels" by (simp add: GetClass_def comp_def)
  with predictRows_hits [OF l] show ?thesis
    by (simp add: correctCount_def GetClass_def)
qed

lemma Predict_ok:
  assumes "\<forall>r\<in>set (rows u). \<exists>n. descend ro u r d = Inr n"
  shows "\<exists>p. Predict ro d u = Inr p"
  using predictRows_length [OF assms] by (auto simp: Predict_def)

lemma usesAttr_sameFrame:
  "sameFrame c c' \<Longrightarrow> usesAttr a c' \<Longrightarrow> usesAttr a c"
proof (induction "size c" arbitrary: c c' rule: less_induct)
  case less
  from less.prems(2) obtain cs' where cs': "Children c' = Some cs'"
    and use: "SplitAttr c' = Some a \<or> (\<exists>kc\<in>set cs'. usesAttr a (snd kc))"
    by (subst (asm) usesAttr.simps) (auto split: option.splits)
  from less.prems(1) cs' obtain cs where cs: "Children c = Some cs"
    and sp: "SplitAttr c' = SplitAttr c"
    and rel: "list_all2 (\<lambda>kc kc'. fst kc' = fst kc \<and> sameFrame (snd kc) (snd kc')) cs cs'"
    by (subst (asm) sameFrame.simps) (auto split: option.splits)
  from use show ?case
  proof
    assume "SplitAttr c' = Some a"
    with sp cs show ?thesis by (simp add: usesAttr_split)
  next
    assume "\<exists>kc\<in>set cs'. usesAttr a (snd kc)"
    then obtain kc' where kc': "kc' \<in> set cs'" "usesAttr a (snd kc')" by blast
    from rel kc'(1) obtain kc where kc: "kc \<in> set cs" "sameFrame (snd kc) (snd kc')"
      by (induction rule: list_all2_induct) auto
    have "size (snd kc) < size c" using cs kc(1) by (rule size_child_mem)
    with less.hyps kc(2) kc'(2) have "usesAttr a (snd kc)" by blast
    with cs kc(1) show ?thesis by (rule usesAttr_child)
  qed
qed

lemma collectChildren_total:
  "\<forall>x\<in>set xs. \<exists>y. f x = Inr y \<Longrightarrow>
   \<exists>ys. collectChildren (map (\<lambda>kc. (fst kc, f kc)) xs) = Inr ys"
proof (induction xs)
  case Nil
  then show ?case by simp
next
  case (Cons x xs)
  then obtain y ys where "f x = Inr y"
    "collectChildren (map (\<lambda>kc. (fst kc, f kc)) xs) = Inr ys" by auto
  then show ?case by simp
qed

lemma list_all2_map_of:
  "list_all2 (\<lambda>kc p. fst p = fst kc \<and> Q kc (snd p)) cs ps \<Longrightarrow> map_of cs v = Some c \<Longrightarrow>
   \<exists>c'. map_of ps v = Some c' \<and> Q (v, c) c'"
  by (induction rule: list_all2_induct) (auto split: if_splits)

lemma list_all2_partner:
  "list_all2 R xs ys \<Longrightarrow> y \<in> set ys \<Longrightarrow> \<exists>x\<in>set xs. R x y"
  by (induction rule: list_all2_induct) auto

lemma list_all2_keys:
  "list_all2 (\<lambda>kc p. fst p = fst kc \<and> Q kc (snd p)) cs ps \<Longrightarrow> map fst ps = map fst cs"
  by (induction rule: list_all2_induct) auto

lemma routed_leaf: "Children d = None \<Longrightarrow> routed d u"
  by (subst routed.simps) simp

lemma routed_no_split: "SplitAttr d = None \<Longrightarrow> routed d u"
  by (subst routed.simps) (simp split: option.splits)

lemma Prune_routed:
  "wfInstances u \<Longrightarrow> routed d u \<Longrightarrow>
   \<exists>d'. Prune ro d u = Inr d' \<and> routed d' u \<and> hits ro d u (rows u) \<le> hits ro d' u (rows u)"
proof (induction "size d" arbitrary: d u rule: less_induct)
  case less
  show ?case
  proof (cases "Children d = None \<or> SplitAttr d = None")
    case True
    then have "Prune ro d u = Inr d" by (auto simp: Prune_leaf Prune_no_split)
    with less.prems(2) show ?thesis by simp
  next
    case False
    then obtain cs a where cs: "Children d = Some cs" and a: "SplitAttr d = Some a" by auto
    from less.prems(2) obtain j where j: "GetAttrIndexIn (attributes u) a = Some j"
      and keys: "\<forall>r\<in>set (rows u). GetStr r j \<in> fst ` set cs"
      and each: "\<forall>kc\<in>set cs. \<not> usesAttr a (snd kc) \<and>
                   (fst kc \<in> (\<lambda>r. GetStr r j) ` set (rows u) \<longrightarrow>
                      routed (snd kc) (groupOf u a j (fst kc)))"
      by (auto simp: routed_rule [OF cs a])
    let ?V = "(\<lambda>r. GetStr r j) ` set (rows u)"
    let ?g = "groupOf u a j"
    let ?sub = "map (\<lambda>v. (v, ?g v)) (remdups (map (\<lambda>r. GetStr r j) (rows u)))"
    have dec: "DecomposeOnAttributeValues u a = Inr ?sub" using j by (rule decompose_of_index)
    have sub: "map_of ?sub v = (if v \<in> ?V then Some (?g v) else None)" for v
      by (simp add: map_of_groups)
    let ?good = "\<lambda>kc c'. pruneChild ro ?sub kc = Inr c' \<and> \<not> usesAttr a c' \<and>
                   (fst kc \<in> ?V \<longrightarrow> routed c' (?g (fst kc)) \<and>
                      hits ro (snd kc) (?g (fst kc)) (rows (?g (fst kc)))
                        \<le> hits ro c' (?g (fst kc)) (rows (?g (fst kc))))"
    have stepA: "\<exists>c'. ?good kc c'" if kc: "kc \<in> set cs" for kc
    proof (cases "fst kc \<in> ?V")
      case False
      with each kc show ?thesis by (auto simp: pruneChild_def sub)
    next
      case True
      have "size (snd kc) < size d" using cs kc by (rule size_child_mem)
      moreover have "wfInstances (?g (fst kc))" using less.prems(1) by (rule wfInstances_groupOf)
      moreover have "routed (snd kc) (?g (fst kc))" using each kc True by blast
      ultimately obtain c' where c': "Prune ro (snd kc) (?g (fst kc)) = Inr c'"
        "routed c' (?g (fst kc))"
        "hits ro (snd kc) (?g (fst kc)) (rows (?g (fst kc)))
           \<le> hits ro c' (?g (fst kc)) (rows (?g (fst kc)))"
        using less.hyps by blast
      from c'(1) have "sameFrame (snd kc) c'" by (rule Prune_frame)
      with each kc have "\<not> usesAttr a c'" using usesAttr_sameFrame by blast
      with c' True show ?thesis by (auto simp: pruneChild_def sub)
    qed
    then have "\<forall>kc\<in>set cs. \<exists>c'. pruneChild ro ?sub kc = Inr c'" by blast
    from collectChildren_total [OF this] obtain pruned where
      pruned: "pruneChildren ro ?sub cs = Inr pruned" by (auto simp: pruneChildren_def)
    then have rel: "list_all2 (\<lambda>kc p. fst p = fst kc \<and> pruneChild ro ?sub kc = Inr (snd p))
                      cs pruned"
      unfolding pruneChildren_def by (rule collectChildren_map)
    let ?d1 = "setChildren d (Some pruned)"
    let ?d2 = "setChildren d None"
    have cs1: "Children ?d1 = Some pruned" and a1: "SplitAttr ?d1 = Some a"
      using a by (simp_all add: setChildren_def)
    have good_pruned: "\<exists>kc\<in>set cs. fst kc = fst p \<and> ?good kc (snd p)" if "p \<in> set pruned" for p
    proof -
      from list_all2_partner [OF rel that] obtain kc where
        kc: "kc \<in> set cs" "fst p = fst kc" "pruneChild ro ?sub kc = Inr (snd p)" by blast
      from stepA [OF kc(1)] kc(3) have "?good kc (snd p)" by auto
      with kc show ?thesis by auto
    qed
    have routed1: "routed ?d1 u"
    proof -
      have "\<forall>r\<in>set (rows u). GetStr r j \<in> fst ` set pruned"
        using keys list_all2_keys [OF rel] by (metis set_map)
      moreover have "\<forall>p\<in>set pruned. \<not> usesAttr a (snd p) \<and>
                       (fst p \<in> ?V \<longrightarrow> routed (snd p) (?g (fst p)))"
        using good_pruned by force
      ultimately show ?thesis using j by (auto simp: routed_rule [OF cs1 a1])
    qed
    have both: "\<exists>c c'. map_of cs v = Some c \<and> \<not> usesAttr a c \<and>
                  map_of pruned v = Some c' \<and> \<not> usesAttr a c' \<and>
                  hits ro c (?g v) (rows (?g v)) \<le> hits ro c' (?g v) (rows (?g v))"
      if v: "v \<in> ?V" for v
    proof -
      from v keys obtain c where c: "map_of cs v = Some c"
        by (metis (no_types, lifting) imageE map_of_eq_None_iff not_Some_eq)
      then have mem: "(v, c) \<in> set cs" by (rule map_of_SomeD)
      from list_all2_map_of [OF rel c] obtain c' where
        c': "map_of pruned v = Some c'" "pruneChild ro ?sub (v, c) = Inr c'" by blast
      from stepA [OF mem] c'(2) have "?good (v, c) c'" by auto
      with v c c' each mem show ?thesis by force
    qed
    have all0: "\<forall>r\<in>set (rows u). \<exists>c. map_of cs (GetStr r j) = Some c \<and> \<not> usesAttr a c"
      using both by blast
    have all1: "\<forall>r\<in>set (rows u). \<exists>c. map_of pruned (GetStr r j) = Some c \<and> \<not> usesAttr a c"
      using both by blast
    have "hits ro d u (rows u) =
            (\<Sum>v\<in>?V. hits ro (the (map_of cs v)) (?g v) (rows (?g v)))"
      using cs a j less.prems(1) all0 by (rule hits_decompose)
    also have "\<dots> \<le> (\<Sum>v\<in>?V. hits ro (the (map_of pruned v)) (?g v) (rows (?g v)))"
    proof (rule sum_mono)
      fix v assume "v \<in> ?V"
      from both [OF this] show "hits ro (the (map_of cs v)) (?g v) (rows (?g v))
          \<le> hits ro (the (map_of pruned v)) (?g v) (rows (?g v))" by auto
    qed
    also have "\<dots> = hits ro ?d1 u (rows u)"
      using hits_decompose [OF cs1 a1 j less.prems(1) all1] by simp
    finally have le1: "hits ro d u (rows u) \<le> hits ro ?d1 u (rows u)" .
    from routed_descend_ok [OF less.prems(1) routed1]
    have "\<forall>r\<in>set (rows u). \<exists>n. descend ro u r ?d1 = Inr n" by blast
    from Predict_ok [OF this] obtain bp where bp: "Predict ro ?d1 u = Inr bp" by blast
    obtain np where np: "Predict ro ?d2 u = Inr np" by (simp add: Predict_collapsed)
    have res: "Prune ro d u =
                 (if accLess (computeAccuracy np u) (computeAccuracy bp u)
                  then Inr ?d1 else Inr ?d2)"
      by (simp add: Prune_rule [OF cs a] dec pruned bp np)
    show ?thesis
    proof (cases "accLess (computeAccuracy np u) (computeAccuracy bp u)")
      case True
      with res routed1 le1 show ?thesis by simp
    next
      case False
      from bp np have "length (rows np) = length (rows u)" "length (rows bp) = length (rows u)"
        by (auto dest: Predict_Inr_length)
      from accLess_count [OF this] False
      have "correctCount bp u \<le> correctCount np u" by simp
      then have "hits ro ?d1 u (rows u) \<le> hits ro ?d2 u (rows u)"
        using Predict_hits [OF bp] Predict_hits [OF np] by simp
      with le1 have "hits ro d u (rows u) \<le> hits ro ?d2 u (rows u)" by simp
      moreover have "routed ?d2 u" by (rule routed_leaf) (simp add: setChildren_def)
      ultimately show ?thesis using res False by simp
    qed
  qed
qed

lemma wfInstances_validSeen: "wfInstances validSeen"
  by (simp add: wfInstances_def validSeen_def attrA_def attrB_def attrD_def)

lemma routed_treeThree_validSeen: "routed treeThree validSeen"
  by code_simp

lemma Prune_treeThree_validSeen:
  "Prune id treeThree validSeen = Inr (setChildren treeThree None)"
  by code_simp

text \<open>
  C5, as stated: for every tree and every validation set the accuracy of the predictions
  on the validation rows after \<open>Prune\<close> is at least the accuracy before.  It fails on
  the tree induced from the training set below and a validation set with a row whose
  value \<open>z\<close> of \<open>A\<close> has no child at the root.  Before pruning both validation rows
  are predicted correctly (the row with \<open>z\<close> through the child \<open>x\<close>, which splits on
  \<open>B\<close>); \<open>Prune\<close> prunes the child \<open>x\<close> with the one row that the decomposition
  routes to it, then the root, and after pruning one of the two rows is predicted
  correctly: the accuracy goes from 1 to 1/2.
\<close>

theorem Prune_degrades_accuracy_counterexample:
  "InferID3Tree id firstColumn trainThree = Inr treeThree \<and>
   Prune id treeThree validThree = Inr (setChildren treeThree None) \<and>
   map_sum id (\<lambda>p. computeAccuracy p validThree) (Predict id treeThree validThree) =
     Inr (Ratio 1) \<and>
   map_sum id (\<lambda>p. computeAccuracy p validThree)
     (Predict id (setChildren treeThree None) validThree) = Inr (Ratio (1 / 2)) \<and>
   accLess (Ratio (1 / 2)) (Ratio 1)"
proof -
  have 1: "map_sum id (\<lambda>p. computeAccuracy p validThree) (Predict id treeThree validThree) =
     Inr (Ratio 1)"
    by code_simp
  have 2: "map_sum id (\<lambda>p. computeAccuracy p validThree)
     (Predict id (setChildren treeThree None) validThree) = Inr (Ratio (1 / 2))"
    by code_simp
  have 3: "accLess (Ratio (1 / 2)) (Ratio 1)" by (simp add: accLess_def)
  from InferID3Tree_trainThree Prune_treeThree 1 2 3 show ?thesis by simp
qed

text \<open>
  C5, amended: pruning does not degrade the accuracy on validation rows that are routed
  as training rows are.  For every tree and every validation set such that, at every node
  with children that validation rows reach, the split attribute is a non-class column of
  these rows, every such row's value has a child and the subtrees below do not split on
  that attribute again (\<open>routed\<close>), \<open>Prune\<close> returns, and the predictions of the
  pruned tree are correct on at least as many validation rows as the predictions of the
  tree before, so that the accuracy after is not less than the accuracy before.
\<close>

theorem Prune_does_not_degrade_when_routed:
  assumes "wfInstances usingInst" and "routed d usingInst"
  shows "\<exists>d' before after.
           Prune ro d usingInst = Inr d' \<and>
           Predict ro d usingInst = Inr before \<and>
           Predict ro d' usingInst = Inr after \<and>
           correctCount before usingInst \<le> correctCount after usingInst \<and>
           \<not> accLess (computeAccuracy after usingInst) (computeAccuracy before usingInst)"
proof -
  from Prune_routed [OF assms] obtain d' where
    d': "Prune ro d usingInst = Inr d'" "routed d' usingInst"
      "hits ro d usingInst (rows usingInst) \<le> hits ro d' usingInst (rows usingInst)"
    by blast
  from routed_descend_ok [OF assms]
  have "\<forall>r\<in>set (rows usingInst). \<exists>n. descend ro usingInst r d = Inr n" by blast
  from Predict_ok [OF this] obtain before where
    b: "Predict ro d usingInst = Inr before" by blast
  from routed_descend_ok [OF assms(1) d'(2)]
  have "\<forall>r\<in>set (rows usingInst). \<exists>n. descend ro usingInst r d' = Inr n" by blast
  from Predict_ok [OF this] obtain after where
    a: "Predict ro d' usingInst = Inr after" by blast
  from d'(3) have le: "correctCount before usingInst \<le> correctCount after usingInst"
    using Predict_hits [OF b] Predict_hits [OF a] by simp
  from a b have "length (rows after) = length (rows usingInst)"
    "length (rows before) = length (rows usingInst)"
    by (auto dest: Predict_Inr_length)
  from accLess_count [OF this] le
  have "\<not> accLess (computeAccuracy after usingInst) (computeAccuracy before usingInst)"
    by simp
  with d'(1) a b le show ?thesis by blast
qed

theorem Prune_does_not_degrade_when_routed_witness:
  "wfInstances validSeen \<and> routed treeThree validSeen \<and>
   Prune id treeThree validSeen = Inr (setChildren treeThree None) \<and>
   (\<exists>before after.
      Predict id treeThree validSeen = Inr before \<and>
      Predict id (setChildren treeThree None) validSeen = Inr after \<and>
      correctCount before validSeen \<le> correctCount after validSeen \<and>
      \<not> accLess (computeAccuracy after validSeen) (computeAccuracy before validSeen))"
  using Prune_does_not_degrade_when_routed
    [OF wfInstances_validSeen routed_treeThree_validSeen, of id]
    wfInstances_validSeen routed_treeThree_validSeen Prune_treeThree_validSeen
  by simp

subsection \<open>Prediction on induced trees\<close>

lemma groupOf_rows_nonempty:
  "r \<in> set (rows u) \<Longrightarrow> rows (groupOf u a j (GetStr r j)) \<noteq> []"
  by (auto simp: groupOf_def filter_empty_conv)

lemma InferID3Tree_nonemptyChildren:
  "rows inst \<noteq> [] \<Longrightarrow> InferID3Tree ro gen inst = Inr d \<Longrightarrow> nonemptyChildren d"
proof (induction "length (attributes inst)" arbitrary: inst d rule: less_induct)
  case less
  show ?case
  proof (cases "Children d")
    case None
    then show ?thesis by (subst nonemptyChildren.simps) simp
  next
    case (Some children)
    from less.prems(2) Some obtain a groups where
      dec: "DecomposeOnAttributeValues inst a = Inr groups"
      and col: "collectChildren (map (\<lambda>kv. (fst kv, InferID3Tree ro gen (snd kv))) groups) =
                  Inr children"
      by (subst (asm) InferID3Tree_unfold)
         (auto split: if_splits option.splits sum.splits)
    from col have rel: "list_all2 (\<lambda>kv p. fst p = fst kv \<and>
                          InferID3Tree ro gen (snd kv) = Inr (snd p)) groups children"
      by (rule collectChildren_map)
    from decompose_groups [OF dec] obtain j where
      groups: "groups = map (\<lambda>v. (v, groupOf inst a j v))
                          (remdups (map (\<lambda>r. GetStr r j) (rows inst)))" by blast
    with less.prems(1) have "groups \<noteq> []" by simp
    with rel have ne: "children \<noteq> []" by (auto dest: list_all2_lengthD)
    have "nonemptyChildren (snd p)" if "p \<in> set children" for p
    proof -
      from list_all2_partner [OF rel that] obtain kv where
        kv: "kv \<in> set groups" "InferID3Tree ro gen (snd kv) = Inr (snd p)" by blast
      from kv(1) groups obtain r where "r \<in> set (rows inst)"
        "snd kv = groupOf inst a j (GetStr r j)" by auto
      then have "rows (snd kv) \<noteq> []" by (simp add: groupOf_rows_nonempty)
      moreover have "length (attributes (snd kv)) < length (attributes inst)"
        using dec kv(1) by (rule decompose_fewer_attributes)
      ultimately show ?thesis using less.hyps kv(2) by blast
    qed
    with ne Some show ?thesis by (subst nonemptyChildren.simps) simp
  qed
qed

lemma nonemptyChildren_treeThree: "nonemptyChildren treeThree"
proof -
  have "rows trainThree \<noteq> []" by (simp add: trainThree_def)
  then show ?thesis using InferID3Tree_trainThree by (rule InferID3Tree_nonemptyChildren)
qed

text \<open>
  C10, as stated: on a tree whose non-nil \<^verbatim>\<open>Children\<close> maps all have a child, the
  traversal of every row of every input dataset reaches a node with nil
  \<^verbatim>\<open>Children\<close>.  It fails for an input dataset without the split attribute: the tree
  induced from the training set below splits on \<open>A\<close> at the root, the input has no column
  \<open>A\<close>, and the loop ends at the root, whose \<^verbatim>\<open>Children\<close> are not nil (the
  \<^verbatim>\<open>j == -1\<close> exit of lines 201 to 204).
\<close>

theorem Predict_stops_at_rule_node_counterexample:
  "InferID3Tree id firstColumn trainThree = Inr treeThree \<and>
   nonemptyChildren treeThree \<and>
   descend id inputWithoutA ([''b1'', ''d''], ''0'') treeThree = Inr treeThree \<and>
   Children treeThree = Some [(''x'', ruleOnB)] \<and>
   GetAttrIndex inputWithoutA (SplitAttr treeThree) = None"
proof -
  have "descend id inputWithoutA ([''b1'', ''d''], ''0'') treeThree = Inr treeThree \<and>
        Children treeThree = Some [(''x'', ruleOnB)] \<and>
        GetAttrIndex inputWithoutA (SplitAttr treeThree) = None"
    by (simp add: descend.simps treeThree_def inputWithoutA_def GetAttrIndex_def
        attrA_def attrB_def attrC_def attrD_def)
  with InferID3Tree_trainThree nonemptyChildren_treeThree show ?thesis by simp
qed

text \<open>
  C10, amended: on a tree whose non-nil \<^verbatim>\<open>Children\<close> maps all have a child
  (every tree that \<open>InferID3Tree\<close> builds from a partition with at least one row is
  one, by \<open>InferID3Tree_nonemptyChildren\<close>), prediction returns, with exactly one
  label per input row, for every input dataset and every order of map iteration; the
  traversal of each row ends, after finitely many descents, at a node with nil
  \<^verbatim>\<open>Children\<close> or at a node whose split attribute is not a column of the input
  dataset.
\<close>

theorem Predict_terminates:
  assumes "validOrder ro" and "nonemptyChildren d"
  shows "(\<exists>p. Predict ro d what = Inr p \<and> length (rows p) = length (rows what)) \<and>
         (\<forall>row. \<exists>cur. descend ro what row d = Inr cur \<and>
            (Children cur = None \<or> GetAttrIndex what (SplitAttr cur) = None))"
proof -
  have each: "\<exists>cur. descend ro what row d = Inr cur \<and>
            (Children cur = None \<or> GetAttrIndex what (SplitAttr cur) = None)" for row
    using assms by (rule descend_ends)
  then have "\<forall>row \<in> set (rows what). \<exists>n. descend ro what row d = Inr n" by blast
  from predictRows_length [OF this] obtain labels where
    "predictRows ro d what (rows what) = Inr labels" "length labels = length (rows what)"
    by blast
  then have "\<exists>p. Predict ro d what = Inr p \<and> length (rows p) = length (rows what)"
    by (simp add: Predict_def)
  with each show ?thesis by blast
qed

theorem Predict_terminates_witness:
  "validOrder id \<and> nonemptyChildren treeThree \<and>
   Predict id treeThree validThree =
     Inr \<lparr> attributes = [], classAttr = attrC, rows = [([], ''0''), ([], ''1'')] \<rparr> \<and>
   length (rows validThree) = 2"
proof -
  from Predict_terminates [OF validOrder_id nonemptyChildren_treeThree, of validThree]
  obtain p where "Predict id treeThree validThree = Inr p"
    "length (rows p) = length (rows validThree)" by blast
  moreover have "Predict id treeThree validThree =
     Inr \<lparr> attributes = [], classAttr = attrC, rows = [([], ''0''), ([], ''1'')] \<rparr>"
    by code_simp
  moreover have "length (rows validThree) = 2" by (simp add: validThree_def)
  ultimately show ?thesis using validOrder_id nonemptyChildren_treeThree by simp
qed

end
